theory Spec2Isabelle
  imports Main "HOL-Library.Multiset"
begin

section \<open>The maze solver (buglab solver.cpp): data model\<close>

text \<open>
  The grid size and the deep-jump depth are compile-time constants of the namespace
  \<open>Config\<close> in the source (29, 19 and 2). They are the fields of a configuration
  record here, so that the worked examples on a 2 by 2 grid can be stated; the source's
  configuration is \<open>source_config\<close>. C++ \<open>int\<close> and \<open>long long\<close> are modelled
  as \<open>int\<close>: every quantity of the simulator is bounded by the step budget, so none
  wraps for the grid sizes a \<open>long long\<close> budget can hold.
\<close>

record Config =
  MAZE_WIDTH :: int
  MAZE_HEIGHT :: int
  DEEP_JUMP_DEPTH :: int

definition source_config :: Config where
  "source_config = \<lparr>MAZE_WIDTH = 29, MAZE_HEIGHT = 19, DEEP_JUMP_DEPTH = 2\<rparr>"

record Point =
  coordinate_x :: int
  coordinate_y :: int

text \<open>\<open>Point::operator+\<close>; \<open>Point::operator==\<close> is equality of the two fields.\<close>

definition point_add :: "Point \<Rightarrow> Point \<Rightarrow> Point" where
  "point_add a b =
     \<lparr>coordinate_x = coordinate_x a + coordinate_x b,
      coordinate_y = coordinate_y a + coordinate_y b\<rparr>"

record Direction =
  delta :: Point
  priority :: int

text \<open>\<open>Direction::operator==\<close> compares the deltas only.\<close>

definition direction_eq :: "Direction \<Rightarrow> Direction \<Rightarrow> bool" where
  "direction_eq a b = (delta a = delta b)"

definition LEFT :: Direction where
  "LEFT = \<lparr>delta = \<lparr>coordinate_x = -1, coordinate_y = 0\<rparr>, priority = 1\<rparr>"

definition UP :: Direction where
  "UP = \<lparr>delta = \<lparr>coordinate_x = 0, coordinate_y = -1\<rparr>, priority = 2\<rparr>"

definition RIGHT :: Direction where
  "RIGHT = \<lparr>delta = \<lparr>coordinate_x = 1, coordinate_y = 0\<rparr>, priority = 3\<rparr>"

definition DOWN :: Direction where
  "DOWN = \<lparr>delta = \<lparr>coordinate_x = 0, coordinate_y = 1\<rparr>, priority = 4\<rparr>"

text \<open>\<open>Directions::ALL\<close>, in the order of the source.\<close>

definition Directions_ALL :: "Direction list" where
  "Directions_ALL = [UP, DOWN, LEFT, RIGHT]"

subsection \<open>Two-dimensional vectors\<close>

text \<open>
  A \<open>std::vector<std::vector<T>>\<close> is a list of rows, read as \<open>g[y][x]\<close>. Every read
  and write of the source follows a bounds test (or uses the start or finish cell), so
  the index is never negative where it matters.
\<close>

definition grid_at :: "'a list list \<Rightarrow> Point \<Rightarrow> 'a" where
  "grid_at g p = g ! nat (coordinate_y p) ! nat (coordinate_x p)"

definition grid_set :: "'a list list \<Rightarrow> Point \<Rightarrow> 'a \<Rightarrow> 'a list list" where
  "grid_set g p v =
     g[nat (coordinate_y p) := (g ! nat (coordinate_y p))[nat (coordinate_x p) := v]]"

text \<open>The cells in the order of the nested loops \<open>for r ... for c ...\<close> (row-major).\<close>

definition cells :: "Config \<Rightarrow> Point list" where
  "cells cfg =
     concat (map (\<lambda>r. map (\<lambda>c. \<lparr>coordinate_x = int c, coordinate_y = int r\<rparr>)
                           [0 ..< nat (MAZE_WIDTH cfg)])
       [0 ..< nat (MAZE_HEIGHT cfg)])"

subsection \<open>class Maze\<close>

record Maze =
  wall_grid :: "bool list list"

text \<open>The constructor \<open>Maze()\<close>: no walls.\<close>

definition empty_maze :: "Config \<Rightarrow> Maze" where
  "empty_maze cfg =
     \<lparr>wall_grid = replicate (nat (MAZE_HEIGHT cfg)) (replicate (nat (MAZE_WIDTH cfg)) False)\<rparr>"

definition START_POINT :: Point where
  "START_POINT = \<lparr>coordinate_x = 0, coordinate_y = 0\<rparr>"

definition FINISH_POINT :: "Config \<Rightarrow> Point" where
  "FINISH_POINT cfg = \<lparr>coordinate_x = MAZE_WIDTH cfg - 1, coordinate_y = MAZE_HEIGHT cfg - 1\<rparr>"

definition is_within_bounds :: "Config \<Rightarrow> Point \<Rightarrow> bool" where
  "is_within_bounds cfg point =
     (coordinate_y point \<ge> 0 \<and> coordinate_y point < MAZE_HEIGHT cfg
      \<and> coordinate_x point \<ge> 0 \<and> coordinate_x point < MAZE_WIDTH cfg)"

definition is_wall_at :: "Maze \<Rightarrow> Point \<Rightarrow> bool" where
  "is_wall_at m point = grid_at (wall_grid m) point"

definition set_wall_at :: "Maze \<Rightarrow> Point \<Rightarrow> bool \<Rightarrow> Maze" where
  "set_wall_at m point has_wall = m\<lparr>wall_grid := grid_set (wall_grid m) point has_wall\<rparr>"

definition to_string_representation :: "Config \<Rightarrow> Maze \<Rightarrow> string" where
  "to_string_representation cfg m =
     map (\<lambda>p. if is_wall_at m p then CHR ''1'' else CHR ''0'') (cells cfg)"

subsection \<open>Maze::has_path_to_finish\<close>

text \<open>
  The local vector \<open>visited\<close> is allocated with \<open>MAZE_HEIGHT\<close> rows of \<open>MAZE_WIDTH\<close>
  cells and is read only after \<open>is_within_bounds\<close>. A read outside the allocation is
  undefined behaviour in C++ and cannot happen in the source; the model reads it as
  "already visited", so that the loop is a total function of its arguments.
\<close>

definition is_visited :: "bool list list \<Rightarrow> Point \<Rightarrow> bool" where
  "is_visited visited p =
     (if nat (coordinate_y p) < length visited
         \<and> nat (coordinate_x p) < length (visited ! nat (coordinate_y p))
      then grid_at visited p else True)"

text \<open>The body of \<open>for (const auto& direction : Directions::ALL)\<close>, on the queue and \<open>visited\<close>.\<close>

definition bfs_visit ::
  "Config \<Rightarrow> Maze \<Rightarrow> Point \<Rightarrow> Direction \<Rightarrow> Point list \<times> bool list list \<Rightarrow> Point list \<times> bool list list" where
  "bfs_visit cfg m current_point direction qv =
     (let next_point = point_add current_point (delta direction) in
      if is_within_bounds cfg next_point \<and> \<not> is_visited (snd qv) next_point \<and> \<not> is_wall_at m next_point
      then (fst qv @ [next_point], grid_set (snd qv) next_point True)
      else qv)"

definition bfs_expand ::
  "Config \<Rightarrow> Maze \<Rightarrow> Point \<Rightarrow> Point list \<times> bool list list \<Rightarrow> Point list \<times> bool list list" where
  "bfs_expand cfg m current_point qv = fold (bfs_visit cfg m current_point) Directions_ALL qv"

definition count_unvisited :: "bool list list \<Rightarrow> nat" where
  "count_unvisited visited = sum_list (map (\<lambda>row. length (filter Not row)) visited)"

lemma filter_Not_update:
  "x < length row \<Longrightarrow> \<not> row ! x \<Longrightarrow>
   length (filter Not (row[x := True])) < length (filter Not row)"
proof (induction row arbitrary: x)
  case Nil
  then show ?case by simp
next
  case (Cons a row)
  then show ?case by (cases x) auto
qed

lemma count_unvisited_grid_set:
  assumes "\<not> is_visited visited p"
  shows "count_unvisited (grid_set visited p True) < count_unvisited visited"
proof -
  let ?y = "nat (coordinate_y p)" and ?x = "nat (coordinate_x p)"
  from assms have y: "?y < length visited" and x: "?x < length (visited ! ?y)"
    and f: "\<not> visited ! ?y ! ?x"
    by (auto simp: is_visited_def grid_at_def split: if_splits)
  have a: "visited = take ?y visited @ (visited ! ?y) # drop (Suc ?y) visited"
    using y by (simp add: id_take_nth_drop)
  have b: "visited[?y := (visited ! ?y)[?x := True]] =
      take ?y visited @ ((visited ! ?y)[?x := True]) # drop (Suc ?y) visited"
    using y by (simp add: upd_conv_take_nth_drop)
  have "count_unvisited (take ?y visited @ ((visited ! ?y)[?x := True]) # drop (Suc ?y) visited)
      < count_unvisited (take ?y visited @ (visited ! ?y) # drop (Suc ?y) visited)"
    using filter_Not_update [OF x f] by (simp add: count_unvisited_def)
  then show ?thesis
    unfolding grid_set_def b using a by simp
qed

lemma bfs_visit_measure:
  "bfs_visit cfg m c d qv = qv \<or>
   count_unvisited (snd (bfs_visit cfg m c d qv)) < count_unvisited (snd qv)"
  by (simp add: bfs_visit_def Let_def count_unvisited_grid_set)

lemma fold_bfs_visit_measure:
  "fold (bfs_visit cfg m c) ds qv = qv \<or>
   count_unvisited (snd (fold (bfs_visit cfg m c) ds qv)) < count_unvisited (snd qv)"
proof (induction ds arbitrary: qv)
  case Nil
  then show ?case by simp
next
  case (Cons d ds)
  have "fold (bfs_visit cfg m c) ds (bfs_visit cfg m c d qv) = bfs_visit cfg m c d qv \<or>
      count_unvisited (snd (fold (bfs_visit cfg m c) ds (bfs_visit cfg m c d qv)))
        < count_unvisited (snd (bfs_visit cfg m c d qv))"
    by (rule Cons.IH)
  moreover have "bfs_visit cfg m c d qv = qv \<or>
      count_unvisited (snd (bfs_visit cfg m c d qv)) < count_unvisited (snd qv)"
    by (rule bfs_visit_measure)
  ultimately show ?case
    by auto
qed

lemma bfs_expand_measure:
  "bfs_expand cfg m c qv = qv \<or>
   count_unvisited (snd (bfs_expand cfg m c qv)) < count_unvisited (snd qv)"
  unfolding bfs_expand_def by (rule fold_bfs_visit_measure)

text \<open>The loop \<open>while (!q.empty())\<close>: the queue is a list, its front the head.\<close>

function bfs_loop :: "Config \<Rightarrow> Maze \<Rightarrow> Point list \<Rightarrow> bool list list \<Rightarrow> bool" where
  "bfs_loop cfg m [] visited = False"
| "bfs_loop cfg m (current_point # q) visited =
     (if current_point = FINISH_POINT cfg then True
      else bfs_loop cfg m (fst (bfs_expand cfg m current_point (q, visited)))
             (snd (bfs_expand cfg m current_point (q, visited))))"
  by pat_completeness auto
termination
proof (relation "measures [\<lambda>(cfg, m, q, visited). count_unvisited visited,
                           \<lambda>(cfg, m, q, visited). length q]")
  show "wf (measures [\<lambda>(cfg, m, q, visited). count_unvisited visited,
                      \<lambda>(cfg, m, q, visited). length q])"
    by simp
next
  fix cfg :: Config and m :: Maze and current_point :: Point and q :: "Point list"
    and visited :: "bool list list"
  from bfs_expand_measure [of cfg m current_point "(q, visited)"]
  show "((cfg, m, fst (bfs_expand cfg m current_point (q, visited)),
          snd (bfs_expand cfg m current_point (q, visited))),
         cfg, m, current_point # q, visited)
        \<in> measures [\<lambda>(cfg, m, q, visited). count_unvisited visited,
                     \<lambda>(cfg, m, q, visited). length q]"
    by (auto simp: case_prod_beta)
qed

definition has_path_to_finish :: "Config \<Rightarrow> Maze \<Rightarrow> bool" where
  "has_path_to_finish cfg m =
     (if is_wall_at m START_POINT \<or> is_wall_at m (FINISH_POINT cfg) then False
      else bfs_loop cfg m [START_POINT]
             (grid_set (replicate (nat (MAZE_HEIGHT cfg)) (replicate (nat (MAZE_WIDTH cfg)) False))
                START_POINT True))"

subsection \<open>BugSimulator::calculate_score\<close>

text \<open>The local variables of the walk: the state at the head of the \<open>while\<close> loop.\<close>

record sim_state =
  pos :: Point
  visit_counts :: "int list list"
  steps :: int
  last_dir :: Direction

text \<open>
  The two nested loops that write \<open>-1\<close> into the visit count of every wall cell, then
  the start cell's count and the seeds.
\<close>

definition initial_visit_counts :: "Config \<Rightarrow> Maze \<Rightarrow> int list list" where
  "initial_visit_counts cfg m =
     fold (\<lambda>p vc. if is_wall_at m p then grid_set vc p (- 1) else vc) (cells cfg)
       (replicate (nat (MAZE_HEIGHT cfg)) (replicate (nat (MAZE_WIDTH cfg)) 0))"

definition initial_state :: "Config \<Rightarrow> Maze \<Rightarrow> sim_state" where
  "initial_state cfg m =
     \<lparr>pos = \<lparr>coordinate_x = 0, coordinate_y = 0\<rparr>,
      visit_counts = grid_set (initial_visit_counts cfg m) \<lparr>coordinate_x = 0, coordinate_y = 0\<rparr> 1,
      steps = 0,
      last_dir = DOWN\<rparr>"

text \<open>
  The body of \<open>for (const auto& dir : Directions::ALL)\<close> on the pair
  \<open>(min_visits, best_dirs)\<close>.
\<close>

definition scan_dir ::
  "Config \<Rightarrow> int list list \<Rightarrow> Point \<Rightarrow> Direction \<Rightarrow> int \<times> Direction list \<Rightarrow> int \<times> Direction list" where
  "scan_dir cfg vc p dir mb =
     (let next_pos = point_add p (delta dir) in
      if \<not> is_within_bounds cfg next_pos \<or> grid_at vc next_pos = - 1 then mb
      else
        let neighbor_visits = grid_at vc next_pos in
        if fst mb = - 1 \<or> neighbor_visits < fst mb then (neighbor_visits, [dir])
        else if neighbor_visits = fst mb then (fst mb, snd mb @ [dir])
        else mb)"

definition best_dirs :: "Config \<Rightarrow> int list list \<Rightarrow> Point \<Rightarrow> Direction list" where
  "best_dirs cfg vc p = snd (fold (scan_dir cfg vc p) Directions_ALL (- 1, []))"

text \<open>
  \<open>std::max_element\<close> with the comparison \<open>a.priority < b.priority\<close>: the first element
  that no later one beats. The range is not empty where the source calls it.
\<close>

definition max_element_priority :: "Direction \<Rightarrow> Direction list \<Rightarrow> Direction" where
  "max_element_priority d ds = foldl (\<lambda>largest x. if priority largest < priority x then x else largest) d ds"

definition choose_direction :: "Direction list \<Rightarrow> Direction \<Rightarrow> Direction" where
  "choose_direction bd last_direction =
     (if list_ex (\<lambda>d. direction_eq d last_direction) bd then last_direction
      else max_element_priority (hd bd) (tl bd))"

definition step_budget :: "Config \<Rightarrow> int" where
  "step_budget cfg = MAZE_WIDTH cfg * MAZE_HEIGHT cfg * 1000"

text \<open>
  One iteration of the \<open>while\<close> loop: \<open>Inl r\<close> is \<open>return r\<close> from inside the loop,
  \<open>Inr s\<close> the state at the next test of the loop condition.
\<close>

definition walk_step :: "Config \<Rightarrow> sim_state \<Rightarrow> int + sim_state" where
  "walk_step cfg s =
     (if steps s > step_budget cfg then Inl (- 2)
      else
        let bd = best_dirs cfg (visit_counts s) (pos s) in
        if bd = [] then Inl (- 1)
        else
          let chosen_direction = choose_direction bd (last_dir s);
              new_pos = point_add (pos s) (delta chosen_direction)
          in Inr \<lparr>pos = new_pos,
                  visit_counts = grid_set (visit_counts s) new_pos (grid_at (visit_counts s) new_pos + 1),
                  steps = steps s + 1,
                  last_dir = chosen_direction\<rparr>)"

definition at_finish :: "Config \<Rightarrow> sim_state \<Rightarrow> bool" where
  "at_finish cfg s =
     (\<not> (coordinate_x (pos s) \<noteq> MAZE_WIDTH cfg - 1 \<or> coordinate_y (pos s) \<noteq> MAZE_HEIGHT cfg - 1))"

lemma walk_step_steps:
  "walk_step cfg s = Inr s' \<Longrightarrow> steps s' = steps s + 1 \<and> steps s \<le> step_budget cfg"
  by (auto simp: walk_step_def Let_def split: if_splits)

function walk_loop :: "Config \<Rightarrow> sim_state \<Rightarrow> int" where
  "walk_loop cfg s =
     (if at_finish cfg s then steps s
      else case walk_step cfg s of Inl r \<Rightarrow> r | Inr s' \<Rightarrow> walk_loop cfg s')"
  by pat_completeness auto
termination
  by (relation "measure (\<lambda>(cfg, s). nat (step_budget cfg + 2 - steps s))")
     (auto dest!: walk_step_steps)

declare walk_loop.simps [simp del]

definition calculate_score :: "Config \<Rightarrow> Maze \<Rightarrow> int" where
  "calculate_score cfg m =
     (if \<not> has_path_to_finish cfg m then - 1
      else walk_loop cfg (initial_state cfg m))"

subsection \<open>The worked example: the empty 2 by 2 grid\<close>

definition grid_2x2 :: Config where
  "grid_2x2 = \<lparr>MAZE_WIDTH = 2, MAZE_HEIGHT = 2, DEEP_JUMP_DEPTH = 2\<rparr>"

definition after_step_1 :: sim_state where
  "after_step_1 =
     \<lparr>pos = \<lparr>coordinate_x = 0, coordinate_y = 1\<rparr>, visit_counts = [[1, 0], [1, 0]],
      steps = 1, last_dir = DOWN\<rparr>"

definition after_step_2 :: sim_state where
  "after_step_2 =
     \<lparr>pos = \<lparr>coordinate_x = 1, coordinate_y = 1\<rparr>, visit_counts = [[1, 0], [1, 1]],
      steps = 2, last_dir = RIGHT\<rparr>"

subsection \<open>The tie set, in the words of the specification\<close>

text \<open>
  A neighbour is eligible when it is in bounds and its visit count is not \<open>-1\<close>; the
  tie set holds the eligible directions whose neighbour has the minimum visit count among
  the eligible neighbours. \<open>best_dirs\<close> above is the loop of the source; the two are
  proved equal below.
\<close>

definition eligible :: "Config \<Rightarrow> int list list \<Rightarrow> Point \<Rightarrow> Direction \<Rightarrow> bool" where
  "eligible cfg vc p d =
     (is_within_bounds cfg (point_add p (delta d)) \<and> grid_at vc (point_add p (delta d)) \<noteq> - 1)"

definition neighbor_visits :: "int list list \<Rightarrow> Point \<Rightarrow> Direction \<Rightarrow> int" where
  "neighbor_visits vc p d = grid_at vc (point_add p (delta d))"

definition tie_set :: "Config \<Rightarrow> int list list \<Rightarrow> Point \<Rightarrow> Direction list" where
  "tie_set cfg vc p =
     filter (\<lambda>d. eligible cfg vc p d
                \<and> list_all (\<lambda>d'. eligible cfg vc p d' \<longrightarrow> neighbor_visits vc p d \<le> neighbor_visits vc p d')
                     Directions_ALL)
       Directions_ALL"

subsection \<open>The states of a run\<close>

text \<open>
  The states at which the condition of the \<open>while\<close> loop is tested, in order: the same
  recursion as \<open>walk_loop\<close>, keeping the states. \<open>simulation_trace\<close> is the list for
  a call of \<open>calculate_score\<close>; it is empty when the function returns before the loop.
  The number of iterations the loop starts is the number of states that are not at the
  finish.
\<close>

function walk_trace :: "Config \<Rightarrow> sim_state \<Rightarrow> sim_state list" where
  "walk_trace cfg s =
     s # (if at_finish cfg s then []
          else case walk_step cfg s of Inl r \<Rightarrow> [] | Inr s' \<Rightarrow> walk_trace cfg s')"
  by pat_completeness auto
termination
  by (relation "measure (\<lambda>(cfg, s). nat (step_budget cfg + 2 - steps s))")
     (auto dest!: walk_step_steps)

declare walk_trace.simps [simp del]

definition simulation_trace :: "Config \<Rightarrow> Maze \<Rightarrow> sim_state list" where
  "simulation_trace cfg m =
     (if \<not> has_path_to_finish cfg m then []
      else walk_trace cfg (initial_state cfg m))"

subsection \<open>Paths of open cells\<close>

text \<open>
  A cell is reachable when a four-connected path of in-bounds cells without walls leads
  from the start cell to it (the start cell included).
\<close>

inductive reachable :: "Config \<Rightarrow> Maze \<Rightarrow> Point \<Rightarrow> bool" for cfg :: Config and m :: Maze where
  start: "is_within_bounds cfg START_POINT \<Longrightarrow> \<not> is_wall_at m START_POINT
            \<Longrightarrow> reachable cfg m START_POINT"
| step: "reachable cfg m p \<Longrightarrow> d \<in> set Directions_ALL
            \<Longrightarrow> is_within_bounds cfg (point_add p (delta d))
            \<Longrightarrow> \<not> is_wall_at m (point_add p (delta d))
            \<Longrightarrow> reachable cfg m (point_add p (delta d))"

text \<open>What holds of every cell in the queue of \<open>has_path_to_finish\<close>.\<close>

definition bfs_inv :: "Config \<Rightarrow> Maze \<Rightarrow> Point \<Rightarrow> bool" where
  "bfs_inv cfg m p =
     (p = START_POINT
      \<or> (is_within_bounds cfg p \<and> (is_within_bounds cfg START_POINT \<longrightarrow> reachable cfg m p)))"

text \<open>The second worked example: walls at (1,0) and (0,1), the two neighbours of the start.\<close>

definition isolated_2x2 :: Maze where
  "isolated_2x2 = \<lparr>wall_grid = [[False, True], [True, False]]\<rparr>"

text \<open>The dimensions of an allocated grid, and what holds of the state throughout a walk.\<close>

definition grid_wf :: "Config \<Rightarrow> 'a list list \<Rightarrow> bool" where
  "grid_wf cfg g =
     (length g = nat (MAZE_HEIGHT cfg) \<and> (\<forall>row\<in>set g. length row = nat (MAZE_WIDTH cfg)))"

definition sim_inv :: "Config \<Rightarrow> Maze \<Rightarrow> sim_state \<Rightarrow> bool" where
  "sim_inv cfg m s =
     (grid_wf cfg (visit_counts s)
      \<and> is_within_bounds cfg (pos s) \<and> \<not> is_wall_at m (pos s)
      \<and> (\<forall>p. is_within_bounds cfg p \<longrightarrow>
            (if is_wall_at m p then grid_at (visit_counts s) p = - 1
             else 0 \<le> grid_at (visit_counts s) p)))"

subsection \<open>class SolverBase\<close>

text \<open>
  The members of \<open>SolverBase\<close>. The record sink (\<open>notify_new_record\<close> writes a log
  line and two files) is the list \<open>records\<close> of the notifications sent, in order.
  \<open>simulations\<close> counts the calls of \<open>BugSimulator::calculate_score\<close>; it is not in the
  source and nothing reads it.
\<close>

record solver_base =
  highest_known_score :: int
  score_cache :: "string \<rightharpoonup> int"
  globally_visited_layouts :: "string set"
  records :: "(Maze \<times> int) list"
  simulations :: nat

definition get_score_for_maze ::
  "Config \<Rightarrow> Maze \<Rightarrow> 'a solver_base_scheme \<Rightarrow> int \<times> 'a solver_base_scheme" where
  "get_score_for_maze cfg maze st =
     (let repr = to_string_representation cfg maze in
      case score_cache st repr of
        Some cached \<Rightarrow> (cached, st)
      | None \<Rightarrow>
          let score = calculate_score cfg maze in
          (score, st\<lparr>score_cache := (score_cache st)(repr \<mapsto> score),
                     simulations := simulations st + 1\<rparr>))"

definition notify_new_record :: "Maze \<Rightarrow> int \<Rightarrow> 'a solver_base_scheme \<Rightarrow> 'a solver_base_scheme" where
  "notify_new_record maze score st = st\<lparr>records := records st @ [(maze, score)]\<rparr>"

text \<open>
  The constructor: the members before its body runs (the value of the uninitialised
  \<open>highest_known_score_\<close> is never read), then the body, which a derived class runs on
  its own members too.
\<close>

definition blank_solver :: solver_base where
  "blank_solver = \<lparr>highest_known_score = 0, score_cache = Map.empty,
      globally_visited_layouts = {}, records = [], simulations = 0\<rparr>"

definition SolverBase_init :: "Config \<Rightarrow> 'a solver_base_scheme \<Rightarrow> 'a solver_base_scheme" where
  "SolverBase_init cfg blank =
     (let initial_maze = empty_maze cfg;
          (initial_score, st) = get_score_for_maze cfg initial_maze blank
      in notify_new_record initial_maze initial_score (st\<lparr>highest_known_score := initial_score\<rparr>))"

subsection \<open>GreedyDfsSolver::generate_unique_candidates\<close>

text \<open>
  The body of the two nested loops over the cells, on the triple \<open>(candidates, bfs_queue,
  local_visited)\<close>. The global visited set is only read.
\<close>

definition gen_cell ::
  "Config \<Rightarrow> string set \<Rightarrow> Maze \<Rightarrow> int \<Rightarrow> Point
    \<Rightarrow> Maze list \<times> (Maze \<times> int) list \<times> string set
    \<Rightarrow> Maze list \<times> (Maze \<times> int) list \<times> string set" where
  "gen_cell cfg globally_visited current_maze depth p acc =
     (if (coordinate_x p = 0 \<and> coordinate_y p = 0)
         \<or> (coordinate_x p = MAZE_WIDTH cfg - 1 \<and> coordinate_y p = MAZE_HEIGHT cfg - 1)
         \<or> is_wall_at current_maze p
      then acc
      else
        let next_maze = set_wall_at current_maze p True;
            repr = to_string_representation cfg next_maze
        in if repr \<in> snd (snd acc) then acc
           else ((if repr \<notin> globally_visited then fst acc @ [next_maze] else fst acc),
                 fst (snd acc) @ [(next_maze, depth + 1)],
                 insert repr (snd (snd acc))))"

definition gen_expand ::
  "Config \<Rightarrow> string set \<Rightarrow> Maze \<Rightarrow> int
    \<Rightarrow> Maze list \<times> (Maze \<times> int) list \<times> string set
    \<Rightarrow> Maze list \<times> (Maze \<times> int) list \<times> string set" where
  "gen_expand cfg globally_visited current_maze depth acc =
     fold (gen_cell cfg globally_visited current_maze depth) (cells cfg) acc"

lemma fold_gen_cell_queue:
  "\<exists>news. fst (snd (fold (gen_cell cfg G cm d) ps acc)) = fst (snd acc) @ news
     \<and> (\<forall>x\<in>set news. snd x = d + 1)"
proof (induction ps arbitrary: acc)
  case Nil
  then show ?case by simp
next
  case (Cons p ps)
  have "\<exists>n1. fst (snd (gen_cell cfg G cm d p acc)) = fst (snd acc) @ n1 \<and> (\<forall>x\<in>set n1. snd x = d + 1)"
  proof (cases "gen_cell cfg G cm d p acc = acc")
    case True
    then show ?thesis by simp
  next
    case False
    then have "fst (snd (gen_cell cfg G cm d p acc))
        = fst (snd acc) @ [(set_wall_at cm p True, d + 1)]"
      by (auto simp: gen_cell_def Let_def split: if_splits)
    then show ?thesis by simp
  qed
  then obtain n1 where n1: "fst (snd (gen_cell cfg G cm d p acc)) = fst (snd acc) @ n1"
    "\<forall>x\<in>set n1. snd x = d + 1" by blast
  from Cons.IH [of "gen_cell cfg G cm d p acc"] obtain n2 where
    n2: "fst (snd (fold (gen_cell cfg G cm d) ps (gen_cell cfg G cm d p acc)))
      = fst (snd (gen_cell cfg G cm d p acc)) @ n2" "\<forall>x\<in>set n2. snd x = d + 1" by blast
  from n1 n2 have "fst (snd (fold (gen_cell cfg G cm d) (p # ps) acc)) = fst (snd acc) @ (n1 @ n2)
      \<and> (\<forall>x\<in>set (n1 @ n2). snd x = d + 1)"
    by auto
  then show ?case by blast
qed

text \<open>The loop \<open>while (!bfs_queue.empty())\<close>.\<close>

function gen_loop ::
  "Config \<Rightarrow> string set \<Rightarrow> int \<Rightarrow> (Maze \<times> int) list \<Rightarrow> Maze list \<Rightarrow> string set \<Rightarrow> Maze list" where
  "gen_loop cfg globally_visited jump_depth [] candidates local_visited = candidates"
| "gen_loop cfg globally_visited jump_depth ((current_maze, depth) # bfs_queue) candidates local_visited =
     (if depth \<ge> jump_depth
      then gen_loop cfg globally_visited jump_depth bfs_queue candidates local_visited
      else gen_loop cfg globally_visited jump_depth
             (fst (snd (gen_expand cfg globally_visited current_maze depth
                          (candidates, bfs_queue, local_visited))))
             (fst (gen_expand cfg globally_visited current_maze depth
                          (candidates, bfs_queue, local_visited)))
             (snd (snd (gen_expand cfg globally_visited current_maze depth
                          (candidates, bfs_queue, local_visited)))))"
  by pat_completeness auto
termination
proof (relation "inv_image (mult less_than)
    (\<lambda>(cfg, G, jd, q, c, lv). mset (map (\<lambda>x. nat (jd - snd x)) q))")
  show "wf (inv_image (mult less_than)
    (\<lambda>(cfg, G, jd, q, c, lv). mset (map (\<lambda>x. nat (jd - snd x)) q)))"
    by (intro wf_inv_image wf_mult wf_less_than)
next
  fix cfg :: Config and G :: "string set" and jd :: int and cm :: Maze and depth :: int
    and q :: "(Maze \<times> int) list" and c :: "Maze list" and lv :: "string set"
  have "(mset (map (\<lambda>x. nat (jd - snd x)) q) + {#},
         mset (map (\<lambda>x. nat (jd - snd x)) q) + {#nat (jd - depth)#}) \<in> mult less_than"
    by (rule one_step_implies_mult) simp_all
  then show "((cfg, G, jd, q, c, lv), cfg, G, jd, (cm, depth) # q, c, lv)
    \<in> inv_image (mult less_than) (\<lambda>(cfg, G, jd, q, c, lv). mset (map (\<lambda>x. nat (jd - snd x)) q))"
    by simp
next
  fix cfg :: Config and G :: "string set" and jd :: int and cm :: Maze and depth :: int
    and q :: "(Maze \<times> int) list" and c :: "Maze list" and lv :: "string set"
  assume d: "\<not> jd \<le> depth"
  from fold_gen_cell_queue [of cfg G cm depth "cells cfg" "(c, q, lv)"]
  obtain news where n: "fst (snd (gen_expand cfg G cm depth (c, q, lv))) = q @ news"
    "\<forall>x\<in>set news. snd x = depth + 1"
    unfolding gen_expand_def by auto
  have "(mset (map (\<lambda>x. nat (jd - snd x)) q) + mset (map (\<lambda>x. nat (jd - snd x)) news),
         mset (map (\<lambda>x. nat (jd - snd x)) q) + {#nat (jd - depth)#}) \<in> mult less_than"
  proof (rule one_step_implies_mult)
    show "{#nat (jd - depth)#} \<noteq> {#}" by simp
    show "\<forall>k\<in>#mset (map (\<lambda>x. nat (jd - snd x)) news).
        \<exists>j\<in>#{#nat (jd - depth)#}. (k, j) \<in> less_than"
      using n(2) d by auto
  qed
  then show "((cfg, G, jd, fst (snd (gen_expand cfg G cm depth (c, q, lv))),
           fst (gen_expand cfg G cm depth (c, q, lv)),
           snd (snd (gen_expand cfg G cm depth (c, q, lv)))),
          cfg, G, jd, (cm, depth) # q, c, lv)
    \<in> inv_image (mult less_than) (\<lambda>(cfg, G, jd, q, c, lv). mset (map (\<lambda>x. nat (jd - snd x)) q))"
    unfolding n(1) by simp
qed

definition generate_unique_candidates :: "Config \<Rightarrow> string set \<Rightarrow> Maze \<Rightarrow> int \<Rightarrow> Maze list" where
  "generate_unique_candidates cfg globally_visited initial_maze jump_depth =
     gen_loop cfg globally_visited jump_depth [(initial_maze, 0)] []
       {to_string_representation cfg initial_maze}"

text \<open>What holds of the candidates and the local set throughout a call, for any base layout.\<close>

definition gen_inv ::
  "Config \<Rightarrow> string set \<Rightarrow> Maze \<Rightarrow> Maze list \<times> (Maze \<times> int) list \<times> string set \<Rightarrow> bool" where
  "gen_inv cfg G base acc =
     (to_string_representation cfg base \<in> snd (snd acc)
      \<and> to_string_representation cfg base \<notin> to_string_representation cfg ` set (fst acc)
      \<and> to_string_representation cfg ` set (fst acc) \<subseteq> snd (snd acc)
      \<and> distinct (map (to_string_representation cfg) (fst acc))
      \<and> (\<forall>c\<in>set (fst acc). to_string_representation cfg c \<notin> G))"

text \<open>A layout of the right dimensions whose start and finish cells are open.\<close>

definition maze_ok :: "Config \<Rightarrow> Maze \<Rightarrow> bool" where
  "maze_ok cfg m =
     (grid_wf cfg (wall_grid m) \<and> \<not> is_wall_at m START_POINT \<and> \<not> is_wall_at m (FINISH_POINT cfg))"

text \<open>Every layout among the candidates and in the queue is such a layout.\<close>

definition gen_ok ::
  "Config \<Rightarrow> Maze list \<times> (Maze \<times> int) list \<times> string set \<Rightarrow> bool" where
  "gen_ok cfg acc = ((\<forall>c\<in>set (fst acc). maze_ok cfg c) \<and> (\<forall>x\<in>set (fst (snd acc)). maze_ok cfg (fst x)))"

text \<open>A 2 by 2 layout with a wall on the start cell.\<close>

definition walled_start_2x2 :: Maze where
  "walled_start_2x2 = \<lparr>wall_grid = [[True, False], [False, False]]\<rparr>"

subsection \<open>class GreedyDfsSolver\<close>

text \<open>
  The stack is a list with the top at the head. \<open>deep_jumps\<close> counts the executions of
  the branch of \<open>solve\<close> that prints "Dead end found. Attempting deep jump..." and
  generates at depth \<open>DEEP_JUMP_DEPTH\<close>; it is not in the source.
\<close>

record greedy_solver = solver_base +
  states_to_explore_stack :: "(Maze \<times> int) list"
  deep_jumps :: nat

text \<open>
  The comparison \<open>[](const auto& a, const auto& b) { return a.second < b.second; }\<close>
  that \<open>evaluate_and_process_candidates\<close> passes to \<open>std::sort\<close>.
\<close>

definition score_less :: "Maze \<times> int \<Rightarrow> Maze \<times> int \<Rightarrow> bool" where
  "score_less a b = (snd a < snd b)"

text \<open>
  \<open>std::sort\<close> is not stable: it is a function of its input whose result is a
  permutation of the input in which no element is less, by the comparison, than an
  element before it, and nothing more is known of it. The solver takes it as a parameter.
\<close>

definition sort_spec :: "((Maze \<times> int) list \<Rightarrow> (Maze \<times> int) list) \<Rightarrow> bool" where
  "sort_spec srt =
     (\<forall>xs. sorted_wrt (\<lambda>a b. \<not> score_less b a) (srt xs) \<and> mset (srt xs) = mset xs)"

text \<open>The body of the first loop of \<open>evaluate_and_process_candidates\<close>, on \<open>(improvements, this)\<close>.\<close>

definition score_candidate ::
  "Config \<Rightarrow> int \<Rightarrow> Maze \<Rightarrow> (Maze \<times> int) list \<times> 'a solver_base_scheme
    \<Rightarrow> (Maze \<times> int) list \<times> 'a solver_base_scheme" where
  "score_candidate cfg state_score candidate acc =
     (let (score, st) = get_score_for_maze cfg candidate (snd acc)
      in (if score > state_score then fst acc @ [(candidate, score)] else fst acc, st))"

text \<open>The body of \<open>for (const auto& s : improvements)\<close>.\<close>

definition push_improvement :: "Config \<Rightarrow> Maze \<times> int \<Rightarrow> greedy_solver \<Rightarrow> greedy_solver" where
  "push_improvement cfg s st =
     (let st1 = (if snd s > highest_known_score st
                 then notify_new_record (fst s) (snd s) (st\<lparr>highest_known_score := snd s\<rparr>)
                 else st)
      in st1\<lparr>states_to_explore_stack := s # states_to_explore_stack st1,
              globally_visited_layouts :=
                insert (to_string_representation cfg (fst s)) (globally_visited_layouts st1)\<rparr>)"

definition evaluate_and_process_candidates ::
  "Config \<Rightarrow> ((Maze \<times> int) list \<Rightarrow> (Maze \<times> int) list) \<Rightarrow> Maze list \<Rightarrow> Maze \<times> int
    \<Rightarrow> greedy_solver \<Rightarrow> bool \<times> greedy_solver" where
  "evaluate_and_process_candidates cfg srt candidates state st =
     (let (improvements, st1) = fold (score_candidate cfg (snd state)) candidates ([], st)
      in if improvements \<noteq> []
         then (True, fold (push_improvement cfg) (srt improvements) st1)
         else (False, st1))"

definition find_and_push_potential_next_states ::
  "Config \<Rightarrow> ((Maze \<times> int) list \<Rightarrow> (Maze \<times> int) list) \<Rightarrow> Maze \<times> int \<Rightarrow> int
    \<Rightarrow> greedy_solver \<Rightarrow> bool \<times> greedy_solver" where
  "find_and_push_potential_next_states cfg srt state depth st =
     (let candidates = generate_unique_candidates cfg (globally_visited_layouts st) (fst state) depth
      in if candidates \<noteq> [] then evaluate_and_process_candidates cfg srt candidates state st
         else (False, st))"

text \<open>
  One iteration of the loop of \<open>solve\<close>. The loop ends when the stack is empty; on such a
  state the iteration is the identity.
\<close>

definition solve_iteration ::
  "Config \<Rightarrow> ((Maze \<times> int) list \<Rightarrow> (Maze \<times> int) list) \<Rightarrow> greedy_solver \<Rightarrow> greedy_solver" where
  "solve_iteration cfg srt st =
     (case states_to_explore_stack st of
        [] \<Rightarrow> st
      | current_state # rest \<Rightarrow>
          let (improvement_found, st1) =
                find_and_push_potential_next_states cfg srt current_state 1
                  (st\<lparr>states_to_explore_stack := rest\<rparr>)
          in if \<not> improvement_found \<and> DEEP_JUMP_DEPTH cfg > 1
             then snd (find_and_push_potential_next_states cfg srt current_state (DEEP_JUMP_DEPTH cfg)
                         (st1\<lparr>deep_jumps := deep_jumps st1 + 1\<rparr>))
             else st1)"

definition blank_greedy_solver :: greedy_solver where
  "blank_greedy_solver = \<lparr>highest_known_score = 0, score_cache = Map.empty,
      globally_visited_layouts = {}, records = [], simulations = 0,
      states_to_explore_stack = [], deep_jumps = 0\<rparr>"

text \<open>The object after its constructor and the two statements of \<open>solve\<close> before the loop.\<close>

definition solve_start :: "Config \<Rightarrow> greedy_solver" where
  "solve_start cfg =
     (let st = SolverBase_init cfg blank_greedy_solver
      in st\<lparr>states_to_explore_stack := (empty_maze cfg, highest_known_score st) # states_to_explore_stack st,
            globally_visited_layouts :=
              insert (to_string_representation cfg (empty_maze cfg)) (globally_visited_layouts st)\<rparr>)"

text \<open>The state after \<open>n\<close> iterations of the loop of \<open>solve\<close>.\<close>

definition solve_run ::
  "Config \<Rightarrow> ((Maze \<times> int) list \<Rightarrow> (Maze \<times> int) list) \<Rightarrow> nat \<Rightarrow> greedy_solver" where
  "solve_run cfg srt n = (solve_iteration cfg srt ^^ n) (solve_start cfg)"

definition grid_4x3 :: Config where
  "grid_4x3 = \<lparr>MAZE_WIDTH = 4, MAZE_HEIGHT = 3, DEEP_JUMP_DEPTH = 2\<rparr>"

definition grid_3x3 :: Config where
  "grid_3x3 = \<lparr>MAZE_WIDTH = 3, MAZE_HEIGHT = 3, DEEP_JUMP_DEPTH = 2\<rparr>"

subsection \<open>The improving candidates, in the words of the specification\<close>

text \<open>
  "Score each candidate; keep those whose score strictly exceeds the popped entry's
  score": the candidates in the order of generation, each with the score of the walk
  simulator on it.
\<close>

definition improving :: "Config \<Rightarrow> int \<Rightarrow> Maze list \<Rightarrow> (Maze \<times> int) list" where
  "improving cfg state_score candidates =
     filter (\<lambda>x. snd x > state_score) (map (\<lambda>c. (c, calculate_score cfg c)) candidates)"

text \<open>Every cached score is the score of the walk simulator on every layout with that key.\<close>

definition cache_consistent :: "Config \<Rightarrow> 'a solver_base_scheme \<Rightarrow> bool" where
  "cache_consistent cfg st =
     (\<forall>m v. score_cache st (to_string_representation cfg m) = Some v \<longrightarrow> v = calculate_score cfg m)"

text \<open>
  On the empty 4 by 3 grid (score 5) two neighbours improve: a wall at (1,2), score 7,
  and a wall at (2,2), score 9.
\<close>

definition wall_1_2_4x3 :: Maze where
  "wall_1_2_4x3 =
     \<lparr>wall_grid = [[False, False, False, False], [False, False, False, False],
                   [False, True, False, False]]\<rparr>"

definition wall_2_2_4x3 :: Maze where
  "wall_2_2_4x3 =
     \<lparr>wall_grid = [[False, False, False, False], [False, False, False, False],
                   [False, False, True, False]]\<rparr>"

text \<open>
  On the empty 2 by 5 grid (score 5) no neighbour improves, and among the layouts with
  two walls one does: walls at (0,1) and (1,3), score 7.
\<close>

definition grid_2x5 :: Config where
  "grid_2x5 = \<lparr>MAZE_WIDTH = 2, MAZE_HEIGHT = 5, DEEP_JUMP_DEPTH = 2\<rparr>"

definition walls_0_1_and_1_3_2x5 :: Maze where
  "walls_0_1_and_1_3_2x5 =
     \<lparr>wall_grid = [[False, False], [True, False], [False, False], [False, True], [False, False]]\<rparr>"

subsection \<open>class BestFirstSolver\<close>

text \<open>
  The priority queue of \<open>solve\<close> is the multiset of its entries: \<open>top\<close> is an entry of
  maximal score, and which one among several is not specified. The spinner is display
  only.
\<close>

record best_first_solver = solver_base +
  pq :: "(Maze \<times> int) multiset"

definition placeable_cells :: "Config \<Rightarrow> Maze \<Rightarrow> Point list" where
  "placeable_cells cfg m =
     filter (\<lambda>p. \<not> ((coordinate_x p = 0 \<and> coordinate_y p = 0)
                    \<or> (coordinate_x p = MAZE_WIDTH cfg - 1 \<and> coordinate_y p = MAZE_HEIGHT cfg - 1)
                    \<or> is_wall_at m p))
       (cells cfg)"

text \<open>The body of \<open>for (const auto& p : placeable_cells)\<close>.\<close>

definition best_first_visit ::
  "Config \<Rightarrow> Maze \<times> int \<Rightarrow> Point \<Rightarrow> best_first_solver \<Rightarrow> best_first_solver" where
  "best_first_visit cfg current_state p st =
     (let next_maze = set_wall_at (fst current_state) p True;
          repr = to_string_representation cfg next_maze
      in if repr \<in> globally_visited_layouts st then st
         else
           let (score, st1) = get_score_for_maze cfg next_maze st;
               st2 = (if score > highest_known_score st1
                      then notify_new_record next_maze score (st1\<lparr>highest_known_score := score\<rparr>)
                      else st1)
           in st2\<lparr>pq := add_mset (next_maze, score) (pq st2),
                  globally_visited_layouts := insert repr (globally_visited_layouts st2)\<rparr>)"

text \<open>
  One iteration of the loop of \<open>solve\<close>, after \<open>current_state\<close> was popped:
  \<open>cell_order\<close> is the list \<open>placeable_cells\<close> as \<open>std::shuffle\<close> left it.
\<close>

definition best_first_iteration ::
  "Config \<Rightarrow> Maze \<times> int \<Rightarrow> Point list \<Rightarrow> best_first_solver \<Rightarrow> best_first_solver" where
  "best_first_iteration cfg current_state cell_order st =
     fold (best_first_visit cfg current_state) cell_order st"

definition blank_best_first_solver :: best_first_solver where
  "blank_best_first_solver = \<lparr>highest_known_score = 0, score_cache = Map.empty,
      globally_visited_layouts = {}, records = [], simulations = 0, pq = {#}\<rparr>"

definition best_first_start :: "Config \<Rightarrow> best_first_solver" where
  "best_first_start cfg =
     (let st = SolverBase_init cfg blank_best_first_solver
      in st\<lparr>pq := add_mset (empty_maze cfg, highest_known_score st) (pq st),
            globally_visited_layouts :=
              insert (to_string_representation cfg (empty_maze cfg)) (globally_visited_layouts st)\<rparr>)"

text \<open>
  The states at the head of the loop of \<open>solve\<close>: a step pops an entry of maximal score
  and runs the iteration on some permutation of the placeable cells.
\<close>

inductive best_first_reachable :: "Config \<Rightarrow> best_first_solver \<Rightarrow> bool" for cfg :: Config where
  start: "best_first_reachable cfg (best_first_start cfg)"
| step: "best_first_reachable cfg st \<Longrightarrow> current_state \<in># pq st
          \<Longrightarrow> \<forall>y\<in>#pq st. snd y \<le> snd current_state
          \<Longrightarrow> mset cell_order = mset (placeable_cells cfg (fst current_state))
          \<Longrightarrow> best_first_reachable cfg
               (best_first_iteration cfg current_state cell_order (st\<lparr>pq := pq st - {#current_state#}\<rparr>))"

text \<open>On the empty 4 by 3 grid (score 5) two neighbours improve, with scores 7 and 9.\<close>

text \<open>
  What holds of the notifications sent so far: their scores increase strictly, the best
  known score is the last one sent, and every notified layout was admitted (its canonical
  key is in the global visited set) with the score the cache holds for it.
\<close>

definition record_inv :: "Config \<Rightarrow> 'a solver_base_scheme \<Rightarrow> bool" where
  "record_inv cfg st =
     (records st \<noteq> []
      \<and> sorted_wrt (<) (map snd (records st))
      \<and> highest_known_score st = snd (last (records st))
      \<and> (\<forall>r\<in>set (records st).
            to_string_representation cfg (fst r) \<in> globally_visited_layouts st
            \<and> score_cache st (to_string_representation cfg (fst r)) = Some (snd r)))"

text \<open>
  The candidate of the popped entry at a cell, its canonical key, and the score
  \<open>get_score_for_maze\<close> gives it in a state.
\<close>

definition candidate_at :: "Maze \<times> int \<Rightarrow> Point \<Rightarrow> Maze" where
  "candidate_at current_state p = set_wall_at (fst current_state) p True"

definition candidate_key :: "Config \<Rightarrow> Maze \<times> int \<Rightarrow> Point \<Rightarrow> string" where
  "candidate_key cfg current_state p = to_string_representation cfg (candidate_at current_state p)"

definition candidate_score :: "Config \<Rightarrow> best_first_solver \<Rightarrow> Maze \<times> int \<Rightarrow> Point \<Rightarrow> int" where
  "candidate_score cfg st current_state p = fst (get_score_for_maze cfg (candidate_at current_state p) st)"

text \<open>
  Best-First on the empty 4 by 3 grid, after the first \<open>pop\<close>: the frontier is empty and
  the popped entry is the empty layout with its score 5.
\<close>

definition popped_start_4x3 :: best_first_solver where
  "popped_start_4x3 =
     (best_first_start grid_4x3)
       \<lparr>pq := pq (best_first_start grid_4x3) - {#(empty_maze grid_4x3, 5)#}\<rparr>"

section \<open>Properties\<close>

subsection \<open>The walk on the empty 2 by 2 grid\<close>

text \<open>
  C1, as the specification states it, fails in one detail: after the first step the visit
  count of the cell (0,1) is 1, not 2 (the cell starts at 0 and is incremented once on
  entry; only the start cell is seeded with 1).
\<close>

theorem trace_2x2_count_counterexample:
  "\<not> (\<exists>s. walk_step grid_2x2 (initial_state grid_2x2 (empty_maze grid_2x2)) = Inr s
         \<and> pos s = \<lparr>coordinate_x = 0, coordinate_y = 1\<rparr>
         \<and> grid_at (visit_counts s) \<lparr>coordinate_x = 0, coordinate_y = 1\<rparr> = 2)"
proof -
  have "walk_step grid_2x2 (initial_state grid_2x2 (empty_maze grid_2x2)) = Inr after_step_1"
    by code_simp
  moreover have "grid_at (visit_counts after_step_1) \<lparr>coordinate_x = 0, coordinate_y = 1\<rparr> \<noteq> 2"
    by code_simp
  ultimately show ?thesis by auto
qed

text \<open>
  C1 (amended): on the 2 by 2 grid with no walls, the first iteration finds the tie set
  right and down, both with 0 visits; the seeded direction down is in the tie set, so the
  walk moves down to (0,1), whose visit count becomes 1. The second iteration sees up
  with 1 visit and right with 0 visits, the tie set is right alone, and the walk moves
  right to (1,1), the finish. The score is 2.
\<close>

theorem trace_2x2:
  "pos (initial_state grid_2x2 (empty_maze grid_2x2)) = START_POINT
   \<and> last_dir (initial_state grid_2x2 (empty_maze grid_2x2)) = DOWN
   \<and> grid_at (visit_counts (initial_state grid_2x2 (empty_maze grid_2x2)))
        (point_add START_POINT (delta RIGHT)) = 0
   \<and> grid_at (visit_counts (initial_state grid_2x2 (empty_maze grid_2x2)))
        (point_add START_POINT (delta DOWN)) = 0
   \<and> set (best_dirs grid_2x2 (visit_counts (initial_state grid_2x2 (empty_maze grid_2x2))) START_POINT)
        = {RIGHT, DOWN}
   \<and> walk_step grid_2x2 (initial_state grid_2x2 (empty_maze grid_2x2)) = Inr after_step_1
   \<and> pos after_step_1 = point_add START_POINT (delta DOWN)
   \<and> grid_at (visit_counts after_step_1) (pos after_step_1) = 1
   \<and> grid_at (visit_counts after_step_1) (point_add (pos after_step_1) (delta UP)) = 1
   \<and> grid_at (visit_counts after_step_1) (point_add (pos after_step_1) (delta RIGHT)) = 0
   \<and> best_dirs grid_2x2 (visit_counts after_step_1) (pos after_step_1) = [RIGHT]
   \<and> walk_step grid_2x2 after_step_1 = Inr after_step_2
   \<and> pos after_step_2 = FINISH_POINT grid_2x2
   \<and> calculate_score grid_2x2 (empty_maze grid_2x2) = 2"
  by code_simp

subsection \<open>The scan of the four neighbours and the tie-break\<close>

lemma scan_dir_cases:
  "scan_dir cfg vc p d mb =
     (if \<not> eligible cfg vc p d then mb
      else if fst mb = - 1 \<or> neighbor_visits vc p d < fst mb then (neighbor_visits vc p d, [d])
      else if neighbor_visits vc p d = fst mb then (fst mb, snd mb @ [d])
      else mb)"
  by (simp add: scan_dir_def eligible_def neighbor_visits_def Let_def)

lemma scan_fold:
  "(if \<forall>d\<in>set ds. \<not> eligible cfg vc p d
    then fold (scan_dir cfg vc p) ds (- 1, []) = (- 1, [])
    else fst (fold (scan_dir cfg vc p) ds (- 1, [])) \<noteq> - 1
       \<and> (\<exists>d\<in>set ds. eligible cfg vc p d
              \<and> neighbor_visits vc p d = fst (fold (scan_dir cfg vc p) ds (- 1, [])))
       \<and> (\<forall>d\<in>set ds. eligible cfg vc p d
              \<longrightarrow> fst (fold (scan_dir cfg vc p) ds (- 1, [])) \<le> neighbor_visits vc p d)
       \<and> snd (fold (scan_dir cfg vc p) ds (- 1, []))
           = filter (\<lambda>d. eligible cfg vc p d
                \<and> neighbor_visits vc p d = fst (fold (scan_dir cfg vc p) ds (- 1, []))) ds)"
proof (induction ds rule: rev_induct)
  case Nil
  then show ?case by simp
next
  case (snoc x xs)
  define r where "r = fold (scan_dir cfg vc p) xs (- 1, [])"
  define r' where "r' = scan_dir cfg vc p x r"
  have f: "fold (scan_dir cfg vc p) (xs @ [x]) (- 1, []) = r'"
    by (simp add: r_def r'_def)
  have IH: "if \<forall>d\<in>set xs. \<not> eligible cfg vc p d then r = (- 1, [])
    else fst r \<noteq> - 1
       \<and> (\<exists>d\<in>set xs. eligible cfg vc p d \<and> neighbor_visits vc p d = fst r)
       \<and> (\<forall>d\<in>set xs. eligible cfg vc p d \<longrightarrow> fst r \<le> neighbor_visits vc p d)
       \<and> snd r = filter (\<lambda>d. eligible cfg vc p d \<and> neighbor_visits vc p d = fst r) xs"
    using snoc.IH unfolding r_def .
  have goal: "if \<forall>d\<in>set (xs @ [x]). \<not> eligible cfg vc p d then r' = (- 1, [])
    else fst r' \<noteq> - 1
       \<and> (\<exists>d\<in>set (xs @ [x]). eligible cfg vc p d \<and> neighbor_visits vc p d = fst r')
       \<and> (\<forall>d\<in>set (xs @ [x]). eligible cfg vc p d \<longrightarrow> fst r' \<le> neighbor_visits vc p d)
       \<and> snd r' = filter (\<lambda>d. eligible cfg vc p d \<and> neighbor_visits vc p d = fst r') (xs @ [x])"
  proof (cases "eligible cfg vc p x")
    case False
    then have "r' = r" by (simp add: r'_def scan_dir_cases)
    with False IH show ?thesis by (auto split: if_splits)
  next
    case True
    note el = True
    have nv: "neighbor_visits vc p x \<noteq> - 1"
      using True by (simp add: eligible_def neighbor_visits_def)
    show ?thesis
    proof (cases "\<forall>d\<in>set xs. \<not> eligible cfg vc p d")
      case True
      with IH have "r = (- 1, [])" by simp
      then have "r' = (neighbor_visits vc p x, [x])"
        using el by (simp add: r'_def scan_dir_cases)
      with el nv True show ?thesis
        by (auto simp: filter_empty_conv)
    next
      case False
      with IH have
        a: "fst r \<noteq> - 1" and
        b: "\<exists>d\<in>set xs. eligible cfg vc p d \<and> neighbor_visits vc p d = fst r" and
        c: "\<forall>d\<in>set xs. eligible cfg vc p d \<longrightarrow> fst r \<le> neighbor_visits vc p d" and
        d: "snd r = filter (\<lambda>d. eligible cfg vc p d \<and> neighbor_visits vc p d = fst r) xs"
        by auto
      consider "neighbor_visits vc p x < fst r" | "neighbor_visits vc p x = fst r"
        | "fst r < neighbor_visits vc p x" by linarith
      then show ?thesis
      proof cases
        case 1
        then have r': "r' = (neighbor_visits vc p x, [x])"
          using el by (simp add: r'_def scan_dir_cases)
        have "filter (\<lambda>d. eligible cfg vc p d \<and> neighbor_visits vc p d = neighbor_visits vc p x) xs = []"
          using c 1 by (auto simp: filter_empty_conv)
        with 1 el nv c show ?thesis
          unfolding r' by auto
      next
        case 2
        then have r': "r' = (fst r, snd r @ [x])"
          using el a by (simp add: r'_def scan_dir_cases)
        with 2 el a b c d show ?thesis
          unfolding r' by auto
      next
        case 3
        then have r': "r' = r"
          using el a by (simp add: r'_def scan_dir_cases)
        with 3 el a b c d show ?thesis
          unfolding r' by auto
      qed
    qed
  qed
  show ?case unfolding f by (rule goal)
qed

lemma best_dirs_tie_set: "best_dirs cfg vc p = tie_set cfg vc p"
proof (cases "\<forall>d\<in>set Directions_ALL. \<not> eligible cfg vc p d")
  case True
  with scan_fold [of Directions_ALL cfg vc p] show ?thesis
    by (auto simp: best_dirs_def tie_set_def filter_empty_conv)
next
  case False
  define r where "r = fold (scan_dir cfg vc p) Directions_ALL (- 1, [])"
  from False scan_fold [of Directions_ALL cfg vc p] have
        b: "\<exists>d\<in>set Directions_ALL. eligible cfg vc p d \<and> neighbor_visits vc p d = fst r" and
        c: "\<forall>d\<in>set Directions_ALL. eligible cfg vc p d \<longrightarrow> fst r \<le> neighbor_visits vc p d" and
        d: "snd r = filter (\<lambda>d. eligible cfg vc p d \<and> neighbor_visits vc p d = fst r) Directions_ALL"
    unfolding r_def by auto
  from b obtain d0 where d0: "d0 \<in> set Directions_ALL" "eligible cfg vc p d0"
      "neighbor_visits vc p d0 = fst r" by blast
  have "filter (\<lambda>d. eligible cfg vc p d \<and> neighbor_visits vc p d = fst r) Directions_ALL
      = tie_set cfg vc p"
    unfolding tie_set_def
  proof (rule filter_cong [OF refl])
    fix x assume x: "x \<in> set Directions_ALL"
    show "(eligible cfg vc p x \<and> neighbor_visits vc p x = fst r) =
         (eligible cfg vc p x \<and>
          list_all (\<lambda>d'. eligible cfg vc p d' \<longrightarrow> neighbor_visits vc p x \<le> neighbor_visits vc p d')
           Directions_ALL)"
    proof (cases "eligible cfg vc p x")
      case False
      then show ?thesis by simp
    next
      case True
      with c x have le: "fst r \<le> neighbor_visits vc p x" by blast
      show ?thesis
      proof (cases "neighbor_visits vc p x = fst r")
        case True
        with c show ?thesis by (auto simp: list_all_iff)
      next
        case False
        with le have "\<not> neighbor_visits vc p x \<le> neighbor_visits vc p d0"
          using d0 by simp
        with d0 False show ?thesis by (auto simp: list_all_iff)
      qed
    qed
  qed
  with d show ?thesis by (simp add: best_dirs_def r_def)
qed

lemma max_element_priority_max:
  "max_element_priority d ds \<in> set (d # ds)
   \<and> (\<forall>x\<in>set (d # ds). priority x \<le> priority (max_element_priority d ds))"
  unfolding max_element_priority_def
proof (induction ds arbitrary: d)
  case Nil
  then show ?case by simp
next
  case (Cons a ds)
  show ?case
    using Cons.IH [of "if priority d < priority a then a else d"]
    by (auto split: if_splits)
qed





lemma choose_direction_cases:
  assumes "bd \<noteq> []"
  shows "if \<exists>d\<in>set bd. direction_eq d l then choose_direction bd l = l
         else choose_direction bd l \<in> set bd
            \<and> (\<forall>x\<in>set bd. priority x \<le> priority (choose_direction bd l))"
proof -
  from assms obtain d ds where bd: "bd = d # ds" by (cases bd) auto
  show ?thesis
    using max_element_priority_max [of d ds]
    unfolding bd choose_direction_def list_ex_iff by simp
qed



subsection \<open>The run of the simulator\<close>

lemma walk_trace_not_Nil: "walk_trace cfg s \<noteq> []"
  by (subst walk_trace.simps) simp

lemma walk_step_Inl:
  "walk_step cfg s = Inl r \<Longrightarrow>
     (r = - 2 \<and> steps s > step_budget cfg) \<or> (r = - 1 \<and> \<not> steps s > step_budget cfg)"
  by (auto simp: walk_step_def Let_def split: if_splits)

lemma walk_loop_last:
  "walk_loop cfg s =
     (if at_finish cfg (last (walk_trace cfg s)) then steps (last (walk_trace cfg s))
      else if steps (last (walk_trace cfg s)) > step_budget cfg then - 2 else - 1)"
proof (induction cfg s rule: walk_loop.induct)
  case (1 cfg s)
  show ?case
  proof (cases "at_finish cfg s")
    case True
    then show ?thesis
      by (subst walk_loop.simps, subst (1 2 3) walk_trace.simps) simp
  next
    case nf: False
    show ?thesis
    proof (cases "walk_step cfg s")
      case (Inl r)
      with nf walk_step_Inl [OF Inl] show ?thesis
        by (subst walk_loop.simps, subst (1 2 3) walk_trace.simps) auto
    next
      case (Inr s')
      have t: "walk_trace cfg s = s # walk_trace cfg s'"
        using nf Inr by (subst walk_trace.simps) simp
      have l: "walk_loop cfg s = walk_loop cfg s'"
        using nf Inr by (subst walk_loop.simps) simp
      show ?thesis
        unfolding t l using "1.IH" [OF nf Inr] walk_trace_not_Nil [of cfg s'] by simp
    qed
  qed
qed

lemma walk_trace_steps:
  "i < length (walk_trace cfg s) \<Longrightarrow> steps (walk_trace cfg s ! i) = steps s + int i"
proof (induction cfg s arbitrary: i rule: walk_trace.induct)
  case (1 cfg s)
  show ?case
  proof (cases i)
    case 0
    then show ?thesis by (subst walk_trace.simps) simp
  next
    case (Suc j)
    show ?thesis
    proof (cases "at_finish cfg s")
      case True
      with "1.prems" Suc show ?thesis
        by (subst (asm) walk_trace.simps) simp
    next
      case nf: False
      show ?thesis
      proof (cases "walk_step cfg s")
        case (Inl r)
        with "1.prems" Suc nf show ?thesis
          by (subst (asm) walk_trace.simps) simp
      next
        case (Inr s')
        have t: "walk_trace cfg s = s # walk_trace cfg s'"
          using nf Inr by (subst walk_trace.simps) simp
        from "1.prems" Suc have j: "j < length (walk_trace cfg s')" unfolding t by simp
        from "1.IH" [OF nf Inr j] walk_step_steps [OF Inr] show ?thesis
          unfolding t Suc by simp
      qed
    qed
  qed
qed

lemma walk_trace_butlast:
  "x \<in> set (butlast (walk_trace cfg s)) \<Longrightarrow> \<not> at_finish cfg x \<and> steps x \<le> step_budget cfg"
proof (induction cfg s rule: walk_trace.induct)
  case (1 cfg s)
  show ?case
  proof (cases "at_finish cfg s")
    case True
    with "1.prems" show ?thesis
      by (subst (asm) walk_trace.simps) simp
  next
    case nf: False
    show ?thesis
    proof (cases "walk_step cfg s")
      case (Inl r)
      with "1.prems" nf show ?thesis
        by (subst (asm) walk_trace.simps) simp
    next
      case (Inr s')
      have t: "walk_trace cfg s = s # walk_trace cfg s'"
        using nf Inr by (subst walk_trace.simps) simp
      from "1.prems" have "x = s \<or> x \<in> set (butlast (walk_trace cfg s'))"
        unfolding t using walk_trace_not_Nil [of cfg s'] by (auto split: if_splits)
      with "1.IH" [OF nf Inr] nf walk_step_steps [OF Inr] show ?thesis by auto
    qed
  qed
qed

subsection \<open>The connectivity check finds only real paths\<close>

lemma bfs_visit_inv:
  assumes "\<not> is_wall_at m START_POINT" and "bfs_inv cfg m c" and "d \<in> set Directions_ALL"
    and "\<forall>p\<in>set (fst qv). bfs_inv cfg m p"
  shows "\<forall>p\<in>set (fst (bfs_visit cfg m c d qv)). bfs_inv cfg m p"
proof (cases "is_within_bounds cfg (point_add c (delta d)) \<and> \<not> is_visited (snd qv) (point_add c (delta d))
      \<and> \<not> is_wall_at m (point_add c (delta d))")
  case False
  then have "bfs_visit cfg m c d qv = qv" by (auto simp: bfs_visit_def Let_def)
  with assms(4) show ?thesis by simp
next
  case True
  then have q: "fst (bfs_visit cfg m c d qv) = fst qv @ [point_add c (delta d)]"
    by (simp add: bfs_visit_def Let_def)
  have "bfs_inv cfg m (point_add c (delta d))"
  proof -
    have "is_within_bounds cfg START_POINT \<longrightarrow> reachable cfg m (point_add c (delta d))"
    proof
      assume sb: "is_within_bounds cfg START_POINT"
      from assms(2) sb assms(1) have "reachable cfg m c"
        unfolding bfs_inv_def by (auto intro: reachable.start)
      with True assms(3) show "reachable cfg m (point_add c (delta d))"
        by (auto intro: reachable.step)
    qed
    with True show ?thesis by (simp add: bfs_inv_def)
  qed
  with assms(4) show ?thesis unfolding q by simp
qed

lemma fold_bfs_visit_inv:
  assumes "\<not> is_wall_at m START_POINT" and "bfs_inv cfg m c"
  shows "set ds \<subseteq> set Directions_ALL \<Longrightarrow> \<forall>p\<in>set (fst qv). bfs_inv cfg m p
    \<Longrightarrow> \<forall>p\<in>set (fst (fold (bfs_visit cfg m c) ds qv)). bfs_inv cfg m p"
proof (induction ds arbitrary: qv)
  case Nil
  then show ?case by simp
next
  case (Cons d ds)
  from Cons.prems have d: "d \<in> set Directions_ALL" and ds: "set ds \<subseteq> set Directions_ALL"
    by auto
  from bfs_visit_inv [OF assms d Cons.prems(2)] Cons.IH [OF ds]
  show ?case by simp
qed

lemma bfs_loop_inv:
  "\<not> is_wall_at m START_POINT \<Longrightarrow> bfs_loop cfg m q visited \<Longrightarrow> \<forall>p\<in>set q. bfs_inv cfg m p
    \<Longrightarrow> bfs_inv cfg m (FINISH_POINT cfg)"
proof (induction cfg m q visited rule: bfs_loop.induct)
  case (1 cfg m visited)
  then show ?case by simp
next
  case (2 cfg m current_point q visited)
  show ?case
  proof (cases "current_point = FINISH_POINT cfg")
    case True
    with "2.prems" show ?thesis by simp
  next
    case False
    from "2.prems"(3) have c: "bfs_inv cfg m current_point" and q: "\<forall>p\<in>set (fst (q, visited)). bfs_inv cfg m p"
      by simp_all
    have "\<forall>p\<in>set (fst (bfs_expand cfg m current_point (q, visited))). bfs_inv cfg m p"
      unfolding bfs_expand_def
      by (rule fold_bfs_visit_inv [OF "2.prems"(1) c subset_refl q])
    with "2.IH" [OF False "2.prems"(1)] "2.prems"(2) False show ?thesis by simp
  qed
qed

lemma has_path_sound:
  assumes "has_path_to_finish cfg m"
  shows "reachable cfg m (FINISH_POINT cfg) \<and> 0 < MAZE_WIDTH cfg \<and> 0 < MAZE_HEIGHT cfg
     \<and> \<not> is_wall_at m START_POINT \<and> \<not> is_wall_at m (FINISH_POINT cfg)"
proof -
  from assms have w: "\<not> is_wall_at m START_POINT" "\<not> is_wall_at m (FINISH_POINT cfg)"
    and b: "bfs_loop cfg m [START_POINT]
             (grid_set (replicate (nat (MAZE_HEIGHT cfg)) (replicate (nat (MAZE_WIDTH cfg)) False))
                START_POINT True)"
    by (auto simp: has_path_to_finish_def split: if_splits)
  have "bfs_inv cfg m (FINISH_POINT cfg)"
    by (rule bfs_loop_inv [OF w(1) b]) (simp add: bfs_inv_def)
  then have dims: "0 < MAZE_WIDTH cfg \<and> 0 < MAZE_HEIGHT cfg"
    by (auto simp: bfs_inv_def FINISH_POINT_def START_POINT_def is_within_bounds_def)
  then have sb: "is_within_bounds cfg START_POINT"
    by (simp add: is_within_bounds_def START_POINT_def)
  from \<open>bfs_inv cfg m (FINISH_POINT cfg)\<close> sb w have "reachable cfg m (FINISH_POINT cfg)"
    by (auto simp: bfs_inv_def intro: reachable.start)
  with dims w show ?thesis by simp
qed

lemma initial_state_steps: "steps (initial_state cfg m) = 0"
  by (simp add: initial_state_def)

text \<open>
  C2: when the start cell or the finish cell is a wall, or no four-connected path of open
  in-bounds cells leads from start to finish, the connectivity check fails, the simulator
  returns exactly \<open>-1\<close>, and the loop is never reached (no state of the loop exists).
\<close>

theorem connectivity_gating:
  assumes "is_wall_at m START_POINT \<or> is_wall_at m (FINISH_POINT cfg)
           \<or> \<not> reachable cfg m (FINISH_POINT cfg)"
  shows "\<not> has_path_to_finish cfg m \<and> calculate_score cfg m = - 1 \<and> simulation_trace cfg m = []"
proof -
  from assms has_path_sound [of cfg m] have "\<not> has_path_to_finish cfg m" by blast
  then show ?thesis by (simp add: calculate_score_def simulation_trace_def)
qed

lemma isolated_2x2_reachable:
  "reachable grid_2x2 isolated_2x2 p \<Longrightarrow> p = START_POINT"
proof (induction rule: reachable.induct)
  case start
  then show ?case by simp
next
  case (step p d)
  from step.hyps(2) have "d = UP \<or> d = DOWN \<or> d = LEFT \<or> d = RIGHT"
    by (simp add: Directions_ALL_def)
  moreover have "\<not> is_within_bounds grid_2x2 (point_add START_POINT (delta UP))"
    "is_wall_at isolated_2x2 (point_add START_POINT (delta DOWN))"
    "\<not> is_within_bounds grid_2x2 (point_add START_POINT (delta LEFT))"
    "is_wall_at isolated_2x2 (point_add START_POINT (delta RIGHT))"
    by code_simp+
  ultimately show ?case using step.hyps(3,4) step.IH by auto
qed

lemma isolated_2x2_unreachable: "\<not> reachable grid_2x2 isolated_2x2 (FINISH_POINT grid_2x2)"
proof
  assume "reachable grid_2x2 isolated_2x2 (FINISH_POINT grid_2x2)"
  then have "FINISH_POINT grid_2x2 = START_POINT" by (rule isolated_2x2_reachable)
  moreover have "FINISH_POINT grid_2x2 \<noteq> START_POINT" by code_simp
  ultimately show False by simp
qed

theorem connectivity_gating_witness:
  "\<not> reachable grid_2x2 isolated_2x2 (FINISH_POINT grid_2x2)
   \<and> calculate_score grid_2x2 isolated_2x2 = - 1
   \<and> simulation_trace grid_2x2 isolated_2x2 = []"
  using connectivity_gating [of isolated_2x2 grid_2x2] isolated_2x2_unreachable by simp

text \<open>
  The result of \<open>calculate_score\<close>, a total function (its loop is defined by
  well-founded recursion on the remaining step budget). The guard
  \<open>steps++ > MAZE_WIDTH * MAZE_HEIGHT * 1000\<close> reads the counter before incrementing it:
  the result is \<open>-2\<close>, \<open>-1\<close> or a step count between 0 and the budget plus one. It is
  \<open>-2\<close> exactly when the walk ends away from the finish with more than the budget of
  steps taken, which happens only after exactly budget plus one steps; every earlier
  iteration started within the budget. A non-negative result is the number of steps
  taken, and the walk is then at the finish.
\<close>

lemma calculate_score_result:
  "step_budget cfg = MAZE_WIDTH cfg * MAZE_HEIGHT cfg * 1000
   \<and> (calculate_score cfg m = - 2 \<or> calculate_score cfg m = - 1
      \<or> (0 \<le> calculate_score cfg m \<and> calculate_score cfg m \<le> step_budget cfg + 1))
   \<and> (calculate_score cfg m = - 2 \<longleftrightarrow>
        simulation_trace cfg m \<noteq> []
        \<and> \<not> at_finish cfg (last (simulation_trace cfg m))
        \<and> steps (last (simulation_trace cfg m)) > step_budget cfg)
   \<and> (calculate_score cfg m = - 2 \<longrightarrow>
        steps (last (simulation_trace cfg m)) = step_budget cfg + 1
        \<and> int (length (simulation_trace cfg m)) = step_budget cfg + 2)
   \<and> (0 \<le> calculate_score cfg m \<longrightarrow>
        simulation_trace cfg m \<noteq> []
        \<and> at_finish cfg (last (simulation_trace cfg m))
        \<and> calculate_score cfg m = steps (last (simulation_trace cfg m))
        \<and> calculate_score cfg m = int (length (simulation_trace cfg m)) - 1)
   \<and> (\<forall>i<length (simulation_trace cfg m). steps (simulation_trace cfg m ! i) = int i)
   \<and> (\<forall>s\<in>set (butlast (simulation_trace cfg m)). \<not> at_finish cfg s \<and> steps s \<le> step_budget cfg)"
proof (cases "has_path_to_finish cfg m")
  case False
  then show ?thesis by (simp add: calculate_score_def simulation_trace_def step_budget_def)
next
  case True
  define tr where "tr = walk_trace cfg (initial_state cfg m)"
  define t where "t = last tr"
  define r where "r = walk_loop cfg (initial_state cfg m)"
  define B where "B = step_budget cfg"
  have st: "simulation_trace cfg m = tr" and cs: "calculate_score cfg m = r"
    using True by (simp_all add: simulation_trace_def calculate_score_def tr_def r_def)
  from has_path_sound [OF True] have "0 < MAZE_WIDTH cfg" "0 < MAZE_HEIGHT cfg" by simp_all
  then have "0 < MAZE_WIDTH cfg * MAZE_HEIGHT cfg" by (rule mult_pos_pos)
  then have B0: "0 \<le> B" by (simp add: B_def step_budget_def)
  have ne: "tr \<noteq> []" unfolding tr_def by (rule walk_trace_not_Nil)
  have idx: "\<forall>i<length tr. steps (tr ! i) = int i"
    unfolding tr_def using walk_trace_steps [of _ cfg "initial_state cfg m"]
    by (simp add: initial_state_steps)
  have bl: "\<forall>s\<in>set (butlast tr). \<not> at_finish cfg s \<and> steps s \<le> B"
    unfolding tr_def B_def using walk_trace_butlast by blast
  have len: "steps t = int (length tr) - 1"
  proof -
    from ne have l: "Suc (length tr - 1) = length tr" by (cases tr) auto
    then have "int (length tr - 1) = int (length tr) - 1" by linarith
    moreover have "steps (tr ! (length tr - 1)) = int (length tr - 1)"
      using idx l by simp
    ultimately show ?thesis using ne unfolding t_def by (simp add: last_conv_nth)
  qed
  have ub: "steps t \<le> B + 1"
  proof (cases "length tr = 1")
    case True
    with len B0 show ?thesis by simp
  next
    case False
    from ne have "0 < length tr" by simp
    with False have l2: "2 \<le> length tr" by linarith
    then have "butlast tr ! (length tr - 2) \<in> set (butlast tr)"
      by (intro nth_mem) simp
    moreover have "butlast tr ! (length tr - 2) = tr ! (length tr - 2)"
      using l2 by (simp add: nth_butlast)
    ultimately have "steps (tr ! (length tr - 2)) \<le> B" using bl by auto
    moreover have "steps (tr ! (length tr - 2)) = int (length tr - 2)"
      using idx l2 by simp
    ultimately show ?thesis using len l2 by simp
  qed
  have t0: "0 \<le> steps t" using len ne by (cases tr) auto
  have res: "r = (if at_finish cfg t then steps t else if steps t > B then - 2 else - 1)"
    unfolding r_def t_def tr_def B_def by (rule walk_loop_last)
  have sb: "step_budget cfg = MAZE_WIDTH cfg * MAZE_HEIGHT cfg * 1000"
    by (simp add: step_budget_def)
  have "(r = - 2 \<or> r = - 1 \<or> (0 \<le> r \<and> r \<le> B + 1))
   \<and> (r = - 2 \<longleftrightarrow> tr \<noteq> [] \<and> \<not> at_finish cfg t \<and> steps t > B)
   \<and> (r = - 2 \<longrightarrow> steps t = B + 1 \<and> int (length tr) = B + 2)
   \<and> (0 \<le> r \<longrightarrow> tr \<noteq> [] \<and> at_finish cfg t \<and> r = steps t \<and> r = int (length tr) - 1)
   \<and> (\<forall>i<length tr. steps (tr ! i) = int i)
   \<and> (\<forall>s\<in>set (butlast tr). \<not> at_finish cfg s \<and> steps s \<le> B)"
    using res ub t0 len ne idx bl by auto
  with sb show ?thesis
    unfolding st cs t_def [symmetric] B_def [symmetric] by blast
qed

subsection \<open>The walk stays on open cells\<close>

lemma Point_eq_iff:
  "(p = q) = (coordinate_x p = coordinate_x q \<and> coordinate_y p = coordinate_y q)"
  for p q :: Point
  by (cases p, cases q) simp

lemma grid_wf_grid_set: "grid_wf cfg g \<Longrightarrow> grid_wf cfg (grid_set g p v)"
proof -
  assume wf: "grid_wf cfg g"
  let ?y = "nat (coordinate_y p)"
  show ?thesis
  proof (cases "?y < length g")
    case False
    then have "grid_set g p v = g" by (simp add: grid_set_def list_update_beyond)
    with wf show ?thesis by simp
  next
    case True
    then have "length (g ! ?y) = nat (MAZE_WIDTH cfg)" using wf by (simp add: grid_wf_def)
    then have "\<forall>row\<in>insert ((g ! ?y)[nat (coordinate_x p) := v]) (set g). length row = nat (MAZE_WIDTH cfg)"
      using wf by (simp add: grid_wf_def)
    moreover have "set (grid_set g p v) \<subseteq> insert ((g ! ?y)[nat (coordinate_x p) := v]) (set g)"
      unfolding grid_set_def by (rule set_update_subset_insert)
    ultimately show ?thesis using wf by (auto simp: grid_wf_def grid_set_def)
  qed
qed

lemma grid_at_grid_set:
  assumes "grid_wf cfg g" and "is_within_bounds cfg p" and "is_within_bounds cfg q"
  shows "grid_at (grid_set g p v) q = (if q = p then v else grid_at g q)"
proof -
  let ?y = "nat (coordinate_y p)" and ?x = "nat (coordinate_x p)"
  let ?y' = "nat (coordinate_y q)" and ?x' = "nat (coordinate_x q)"
  from assms have y: "?y < length g" by (simp add: grid_wf_def is_within_bounds_def)
  with assms have x: "?x < length (g ! ?y)" by (simp add: grid_wf_def is_within_bounds_def)
  have eq: "(q = p) = (?y' = ?y \<and> ?x' = ?x)"
    using assms(2,3) by (auto simp: Point_eq_iff is_within_bounds_def)
  show ?thesis
  proof (cases "?y' = ?y")
    case True
    then show ?thesis
      using y x unfolding eq grid_at_def grid_set_def by (simp add: nth_list_update)
  next
    case False
    then show ?thesis
      unfolding eq grid_at_def grid_set_def by simp
  qed
qed

lemma grid_wf_replicate:
  "grid_wf cfg (replicate (nat (MAZE_HEIGHT cfg)) (replicate (nat (MAZE_WIDTH cfg)) v))"
  by (simp add: grid_wf_def)

lemma grid_at_replicate:
  "is_within_bounds cfg p \<Longrightarrow>
   grid_at (replicate (nat (MAZE_HEIGHT cfg)) (replicate (nat (MAZE_WIDTH cfg)) v)) p = v"
  by (simp add: grid_at_def is_within_bounds_def)

lemma set_cells: "set (cells cfg) = {p. is_within_bounds cfg p}"
proof (intro set_eqI iffI)
  fix p assume "p \<in> set (cells cfg)"
  then show "p \<in> {p. is_within_bounds cfg p}"
    by (auto simp: cells_def is_within_bounds_def)
next
  fix p assume "p \<in> {p. is_within_bounds cfg p}"
  then have b: "0 \<le> coordinate_x p" "coordinate_x p < MAZE_WIDTH cfg"
    "0 \<le> coordinate_y p" "coordinate_y p < MAZE_HEIGHT cfg"
    by (simp_all add: is_within_bounds_def)
  define c where "c = nat (coordinate_x p)"
  define r where "r = nat (coordinate_y p)"
  have pe: "p = \<lparr>coordinate_x = int c, coordinate_y = int r\<rparr>"
    using b by (simp add: Point_eq_iff c_def r_def)
  have c: "c < nat (MAZE_WIDTH cfg)" and r: "r < nat (MAZE_HEIGHT cfg)"
    using b by (simp_all add: c_def r_def)
  have "p \<in> set (map (\<lambda>c. \<lparr>coordinate_x = int c, coordinate_y = int r\<rparr>) [0 ..< nat (MAZE_WIDTH cfg)])"
    using c by (subst pe) simp
  moreover have "r \<in> set [0 ..< nat (MAZE_HEIGHT cfg)]" using r by simp
  ultimately have "\<exists>r\<in>set [0 ..< nat (MAZE_HEIGHT cfg)].
      p \<in> set (map (\<lambda>c. \<lparr>coordinate_x = int c, coordinate_y = int r\<rparr>) [0 ..< nat (MAZE_WIDTH cfg)])"
    by blast
  then show "p \<in> set (cells cfg)"
    unfolding cells_def by simp
qed

lemma fold_walls:
  "\<forall>p\<in>set ps. is_within_bounds cfg p \<Longrightarrow> grid_wf cfg vc \<Longrightarrow>
   grid_wf cfg (fold (\<lambda>p vc. if is_wall_at m p then grid_set vc p (- 1) else vc) ps vc)
   \<and> (\<forall>q. is_within_bounds cfg q \<longrightarrow>
         grid_at (fold (\<lambda>p vc. if is_wall_at m p then grid_set vc p (- 1) else vc) ps vc) q
           = (if q \<in> set ps \<and> is_wall_at m q then - 1 else grid_at vc q))"
proof (induction ps arbitrary: vc)
  case Nil
  then show ?case by simp
next
  case (Cons a ps)
  define vc' where "vc' = (if is_wall_at m a then grid_set vc a (- 1) else vc)"
  have wf': "grid_wf cfg vc'"
    unfolding vc'_def using Cons.prems(2) by (simp add: grid_wf_grid_set)
  have a: "is_within_bounds cfg a" and ps: "\<forall>p\<in>set ps. is_within_bounds cfg p"
    using Cons.prems(1) by simp_all
  have at: "\<And>q. is_within_bounds cfg q \<Longrightarrow>
      grid_at vc' q = (if q = a \<and> is_wall_at m q then - 1 else grid_at vc q)"
    unfolding vc'_def using grid_at_grid_set [OF Cons.prems(2) a] by auto
  have f: "fold (\<lambda>p vc. if is_wall_at m p then grid_set vc p (- 1) else vc) (a # ps) vc
      = fold (\<lambda>p vc. if is_wall_at m p then grid_set vc p (- 1) else vc) ps vc'"
    by (simp add: vc'_def)
  from Cons.IH [OF ps wf'] at show ?case
    unfolding f by auto
qed

lemma initial_visit_counts_props:
  "grid_wf cfg (initial_visit_counts cfg m)
   \<and> (\<forall>q. is_within_bounds cfg q \<longrightarrow>
         grid_at (initial_visit_counts cfg m) q = (if is_wall_at m q then - 1 else 0))"
proof -
  have "\<forall>p\<in>set (cells cfg). is_within_bounds cfg p" by (simp add: set_cells)
  from fold_walls [OF this grid_wf_replicate, of m 0]
  show ?thesis
    unfolding initial_visit_counts_def by (auto simp: set_cells grid_at_replicate)
qed

lemma sim_inv_initial:
  assumes "has_path_to_finish cfg m"
  shows "sim_inv cfg m (initial_state cfg m)"
proof -
  from has_path_sound [OF assms] have d: "0 < MAZE_WIDTH cfg" "0 < MAZE_HEIGHT cfg"
    and w: "\<not> is_wall_at m START_POINT" by simp_all
  have sp: "\<lparr>coordinate_x = 0, coordinate_y = 0\<rparr> = START_POINT" by (simp add: START_POINT_def)
  have sb: "is_within_bounds cfg START_POINT"
    using d by (simp add: is_within_bounds_def START_POINT_def)
  note ivc = initial_visit_counts_props [of cfg m]
  have "grid_wf cfg (grid_set (initial_visit_counts cfg m) START_POINT 1)"
    using ivc by (simp add: grid_wf_grid_set)
  moreover have "\<forall>p. is_within_bounds cfg p \<longrightarrow>
            (if is_wall_at m p then grid_at (grid_set (initial_visit_counts cfg m) START_POINT 1) p = - 1
             else 0 \<le> grid_at (grid_set (initial_visit_counts cfg m) START_POINT 1) p)"
    using ivc w sb by (auto simp: grid_at_grid_set)
  ultimately show ?thesis
    using sb w unfolding sim_inv_def initial_state_def sp by simp
qed

lemma tie_set_eligible: "d \<in> set (tie_set cfg vc p) \<Longrightarrow> eligible cfg vc p d"
  by (simp add: tie_set_def)

lemma choose_direction_target:
  assumes "bd \<noteq> []"
  shows "\<exists>d\<in>set bd. delta (choose_direction bd l) = delta d"
proof (cases "\<exists>d\<in>set bd. direction_eq d l")
  case True
  then obtain d where "d \<in> set bd" "delta l = delta d"
    unfolding direction_eq_def by metis
  moreover from True choose_direction_cases [OF assms, of l] have "choose_direction bd l = l"
    by simp
  ultimately show ?thesis by auto
next
  case False
  with choose_direction_cases [OF assms, of l] show ?thesis
    by auto
qed

lemma walk_step_target:
  assumes "walk_step cfg s = Inr s'"
  shows "\<exists>d\<in>set (best_dirs cfg (visit_counts s) (pos s)).
           pos s' = point_add (pos s) (delta d)
           \<and> visit_counts s' = grid_set (visit_counts s) (pos s') (grid_at (visit_counts s) (pos s') + 1)"
proof -
  define bd where "bd = best_dirs cfg (visit_counts s) (pos s)"
  from assms have ne: "bd \<noteq> []"
    by (auto simp: walk_step_def Let_def bd_def split: if_splits)
  from assms ne have s': "s' = \<lparr>pos = point_add (pos s) (delta (choose_direction bd (last_dir s))),
      visit_counts = grid_set (visit_counts s) (point_add (pos s) (delta (choose_direction bd (last_dir s))))
         (grid_at (visit_counts s) (point_add (pos s) (delta (choose_direction bd (last_dir s)))) + 1),
      steps = steps s + 1, last_dir = choose_direction bd (last_dir s)\<rparr>"
    by (auto simp: walk_step_def Let_def bd_def split: if_splits)
  from choose_direction_target [OF ne, of "last_dir s"] obtain d where
    "d \<in> set bd" "delta (choose_direction bd (last_dir s)) = delta d" by blast
  then show ?thesis
    unfolding bd_def [symmetric] by (subst (1 2 3 4) s') auto
qed

lemma best_dirs_open:
  assumes "sim_inv cfg m s" and "d \<in> set (best_dirs cfg (visit_counts s) (pos s))"
  shows "is_within_bounds cfg (point_add (pos s) (delta d))
         \<and> \<not> is_wall_at m (point_add (pos s) (delta d))
         \<and> 0 \<le> grid_at (visit_counts s) (point_add (pos s) (delta d))"
proof -
  from assms(2) have "eligible cfg (visit_counts s) (pos s) d"
    unfolding best_dirs_tie_set by (rule tie_set_eligible)
  then have b: "is_within_bounds cfg (point_add (pos s) (delta d))"
    and n: "grid_at (visit_counts s) (point_add (pos s) (delta d)) \<noteq> - 1"
    by (simp_all add: eligible_def)
  from assms(1) b have "if is_wall_at m (point_add (pos s) (delta d))
      then grid_at (visit_counts s) (point_add (pos s) (delta d)) = - 1
      else 0 \<le> grid_at (visit_counts s) (point_add (pos s) (delta d))"
    unfolding sim_inv_def by blast
  with b n show ?thesis by (auto split: if_splits)
qed

lemma walk_step_inv:
  assumes "sim_inv cfg m s" and "walk_step cfg s = Inr s'"
  shows "sim_inv cfg m s'"
proof -
  from walk_step_target [OF assms(2)] obtain d where
    d: "d \<in> set (best_dirs cfg (visit_counts s) (pos s))"
    and p: "pos s' = point_add (pos s) (delta d)"
    and v: "visit_counts s' = grid_set (visit_counts s) (pos s') (grid_at (visit_counts s) (pos s') + 1)"
    by blast
  from best_dirs_open [OF assms(1) d] have b: "is_within_bounds cfg (pos s')"
    and w: "\<not> is_wall_at m (pos s')" and c: "0 \<le> grid_at (visit_counts s) (pos s')"
    unfolding p by simp_all
  from assms(1) have wf: "grid_wf cfg (visit_counts s)"
    and old: "\<forall>p. is_within_bounds cfg p \<longrightarrow>
            (if is_wall_at m p then grid_at (visit_counts s) p = - 1
             else 0 \<le> grid_at (visit_counts s) p)"
    unfolding sim_inv_def by simp_all
  have "\<forall>q. is_within_bounds cfg q \<longrightarrow>
            (if is_wall_at m q then grid_at (visit_counts s') q = - 1
             else 0 \<le> grid_at (visit_counts s') q)"
  proof (intro allI impI)
    fix q assume q: "is_within_bounds cfg q"
    show "if is_wall_at m q then grid_at (visit_counts s') q = - 1
             else 0 \<le> grid_at (visit_counts s') q"
    proof (cases "q = pos s'")
      case True
      with w c show ?thesis
        unfolding v by (simp add: grid_at_grid_set [OF wf b b])
    next
      case False
      with old q show ?thesis
        unfolding v by (simp add: grid_at_grid_set [OF wf b q])
    qed
  qed
  moreover have "grid_wf cfg (visit_counts s')"
    unfolding v using wf by (rule grid_wf_grid_set)
  ultimately show ?thesis
    using b w unfolding sim_inv_def by simp
qed

lemma walk_trace_inv:
  "sim_inv cfg m s \<Longrightarrow> \<forall>x\<in>set (walk_trace cfg s). sim_inv cfg m x"
proof (induction cfg s rule: walk_trace.induct)
  case (1 cfg s)
  show ?case
  proof (cases "at_finish cfg s")
    case True
    with "1.prems" show ?thesis by (subst walk_trace.simps) simp
  next
    case nf: False
    show ?thesis
    proof (cases "walk_step cfg s")
      case (Inl r)
      with "1.prems" nf show ?thesis by (subst walk_trace.simps) simp
    next
      case (Inr s')
      have t: "walk_trace cfg s = s # walk_trace cfg s'"
        using nf Inr by (subst walk_trace.simps) simp
      from "1.IH" [OF nf Inr walk_step_inv [OF "1.prems" Inr]] "1.prems"
      show ?thesis unfolding t by simp
    qed
  qed
qed

text \<open>
  C10: on every layout that passes the connectivity check, at every state of the run the
  position is in bounds and not a wall; the visit count of an in-bounds cell is \<open>-1\<close>
  exactly when the cell is a wall; and every direction of the tie set leads to an
  in-bounds cell that is not a wall.
\<close>

theorem walk_stays_on_open_cells:
  assumes "has_path_to_finish cfg m"
  shows "simulation_trace cfg m \<noteq> []
    \<and> (\<forall>s\<in>set (simulation_trace cfg m).
          is_within_bounds cfg (pos s) \<and> \<not> is_wall_at m (pos s)
          \<and> (\<forall>p. is_within_bounds cfg p \<longrightarrow>
                (grid_at (visit_counts s) p = - 1 \<longleftrightarrow> is_wall_at m p))
          \<and> (\<forall>d\<in>set (best_dirs cfg (visit_counts s) (pos s)).
                is_within_bounds cfg (point_add (pos s) (delta d))
                \<and> \<not> is_wall_at m (point_add (pos s) (delta d))))"
proof -
  have st: "simulation_trace cfg m = walk_trace cfg (initial_state cfg m)"
    using assms by (simp add: simulation_trace_def)
  have inv: "\<forall>s\<in>set (simulation_trace cfg m). sim_inv cfg m s"
    unfolding st by (rule walk_trace_inv [OF sim_inv_initial [OF assms]])
  have "\<forall>s\<in>set (simulation_trace cfg m).
          is_within_bounds cfg (pos s) \<and> \<not> is_wall_at m (pos s)
          \<and> (\<forall>p. is_within_bounds cfg p \<longrightarrow>
                (grid_at (visit_counts s) p = - 1 \<longleftrightarrow> is_wall_at m p))
          \<and> (\<forall>d\<in>set (best_dirs cfg (visit_counts s) (pos s)).
                is_within_bounds cfg (point_add (pos s) (delta d))
                \<and> \<not> is_wall_at m (point_add (pos s) (delta d)))"
  proof
    fix s assume "s \<in> set (simulation_trace cfg m)"
    with inv have i: "sim_inv cfg m s" by blast
    then have "is_within_bounds cfg (pos s)" "\<not> is_wall_at m (pos s)"
      by (simp_all add: sim_inv_def)
    moreover have "\<forall>p. is_within_bounds cfg p \<longrightarrow>
                (grid_at (visit_counts s) p = - 1 \<longleftrightarrow> is_wall_at m p)"
    proof (intro allI impI)
      fix p assume "is_within_bounds cfg p"
      with i have "if is_wall_at m p then grid_at (visit_counts s) p = - 1
             else 0 \<le> grid_at (visit_counts s) p"
        unfolding sim_inv_def by blast
      then show "grid_at (visit_counts s) p = - 1 \<longleftrightarrow> is_wall_at m p"
        by (auto split: if_splits)
    qed
    moreover have "\<forall>d\<in>set (best_dirs cfg (visit_counts s) (pos s)).
                is_within_bounds cfg (point_add (pos s) (delta d))
                \<and> \<not> is_wall_at m (point_add (pos s) (delta d))"
      using best_dirs_open [OF i] by blast
    ultimately show "is_within_bounds cfg (pos s) \<and> \<not> is_wall_at m (pos s)
          \<and> (\<forall>p. is_within_bounds cfg p \<longrightarrow>
                (grid_at (visit_counts s) p = - 1 \<longleftrightarrow> is_wall_at m p))
          \<and> (\<forall>d\<in>set (best_dirs cfg (visit_counts s) (pos s)).
                is_within_bounds cfg (point_add (pos s) (delta d))
                \<and> \<not> is_wall_at m (point_add (pos s) (delta d)))"
      by blast
  qed
  moreover have "simulation_trace cfg m \<noteq> []"
    unfolding st by (rule walk_trace_not_Nil)
  ultimately show ?thesis by blast
qed

theorem walk_stays_on_open_cells_witness:
  "has_path_to_finish grid_2x2 (empty_maze grid_2x2)
   \<and> after_step_1 \<in> set (simulation_trace grid_2x2 (empty_maze grid_2x2))
   \<and> is_within_bounds grid_2x2 (pos after_step_1)
   \<and> \<not> is_wall_at (empty_maze grid_2x2) (pos after_step_1)"
proof -
  have h: "has_path_to_finish grid_2x2 (empty_maze grid_2x2)" by code_simp
  have t: "simulation_trace grid_2x2 (empty_maze grid_2x2)
      = [initial_state grid_2x2 (empty_maze grid_2x2), after_step_1, after_step_2]"
    by code_simp
  have mem: "after_step_1 \<in> set (simulation_trace grid_2x2 (empty_maze grid_2x2))"
    unfolding t by simp
  from walk_stays_on_open_cells [OF h] mem h show ?thesis by blast
qed

subsection \<open>The score cache\<close>

lemma key_eq_iff:
  "(to_string_representation cfg a = to_string_representation cfg b)
     = (\<forall>p. is_within_bounds cfg p \<longrightarrow> is_wall_at a p = is_wall_at b p)"
  unfolding to_string_representation_def map_eq_conv set_cells by auto

lemma get_score_hit:
  "score_cache st (to_string_representation cfg m) = Some v \<Longrightarrow> get_score_for_maze cfg m st = (v, st)"
  by (simp add: get_score_for_maze_def Let_def)

lemma get_score_miss:
  "score_cache st (to_string_representation cfg m) = None \<Longrightarrow>
   get_score_for_maze cfg m st =
     (calculate_score cfg m,
      st\<lparr>score_cache := (score_cache st)(to_string_representation cfg m \<mapsto> calculate_score cfg m),
         simulations := simulations st + 1\<rparr>)"
  by (simp add: get_score_for_maze_def Let_def)

lemma get_score_keeps:
  "score_cache st k = Some v \<Longrightarrow> score_cache (snd (get_score_for_maze cfg m st)) k = Some v"
  by (cases "score_cache st (to_string_representation cfg m)")
     (auto simp: get_score_miss get_score_hit)

lemma get_scores_keep:
  "score_cache st k = Some v \<Longrightarrow>
   score_cache (fold (\<lambda>m s. snd (get_score_for_maze cfg m s)) ms st) k = Some v"
  by (induction ms arbitrary: st) (simp_all add: get_score_keeps)

lemma get_score_stores:
  "score_cache (snd (get_score_for_maze cfg m st)) (to_string_representation cfg m)
     = Some (fst (get_score_for_maze cfg m st))"
  by (cases "score_cache st (to_string_representation cfg m)")
     (auto simp: get_score_miss get_score_hit)

text \<open>
  C6: the first call of \<open>get_score_for_maze\<close> on a key that is not cached runs the
  simulator once, stores its result under the canonical key and returns it (on a hit it
  runs nothing); every later call on a layout with the same canonical key, directly after
  it or after any number of other calls, returns the same score and leaves the whole
  state, the simulation counter included, unchanged.
\<close>

theorem cache_idempotent:
  assumes "to_string_representation cfg m2 = to_string_representation cfg m1"
  shows "simulations (snd (get_score_for_maze cfg m1 st))
           = simulations st + (if score_cache st (to_string_representation cfg m1) = None then 1 else 0)
    \<and> (score_cache st (to_string_representation cfg m1) = None \<longrightarrow>
          fst (get_score_for_maze cfg m1 st) = calculate_score cfg m1
          \<and> score_cache (snd (get_score_for_maze cfg m1 st))
              = (score_cache st)(to_string_representation cfg m1 \<mapsto> calculate_score cfg m1))
    \<and> get_score_for_maze cfg m2 (snd (get_score_for_maze cfg m1 st))
          = (fst (get_score_for_maze cfg m1 st), snd (get_score_for_maze cfg m1 st))
    \<and> get_score_for_maze cfg m2
          (fold (\<lambda>m s. snd (get_score_for_maze cfg m s)) ms (snd (get_score_for_maze cfg m1 st)))
          = (fst (get_score_for_maze cfg m1 st),
             fold (\<lambda>m s. snd (get_score_for_maze cfg m s)) ms (snd (get_score_for_maze cfg m1 st)))"
proof -
  define r1 where "r1 = fst (get_score_for_maze cfg m1 st)"
  define st1 where "st1 = snd (get_score_for_maze cfg m1 st)"
  have c1: "score_cache st1 (to_string_representation cfg m2) = Some r1"
    unfolding st1_def r1_def assms by (rule get_score_stores)
  have a: "get_score_for_maze cfg m2 st1 = (r1, st1)"
    by (rule get_score_hit [OF c1])
  have "score_cache (fold (\<lambda>m s. snd (get_score_for_maze cfg m s)) ms st1)
          (to_string_representation cfg m2) = Some r1"
    by (rule get_scores_keep [OF c1])
  then have b: "get_score_for_maze cfg m2 (fold (\<lambda>m s. snd (get_score_for_maze cfg m s)) ms st1)
      = (r1, fold (\<lambda>m s. snd (get_score_for_maze cfg m s)) ms st1)"
    by (rule get_score_hit)
  have c: "simulations st1
           = simulations st + (if score_cache st (to_string_representation cfg m1) = None then 1 else 0)"
    unfolding st1_def
    by (cases "score_cache st (to_string_representation cfg m1)")
       (auto simp: get_score_miss get_score_hit)
  have d: "score_cache st (to_string_representation cfg m1) = None \<longrightarrow>
          r1 = calculate_score cfg m1
          \<and> score_cache st1 = (score_cache st)(to_string_representation cfg m1 \<mapsto> calculate_score cfg m1)"
    unfolding st1_def r1_def by (auto simp: get_score_miss)
  from a b c d show ?thesis
    unfolding r1_def st1_def by blast
qed

theorem cache_idempotent_witness:
  "to_string_representation grid_2x2 (empty_maze grid_2x2) = to_string_representation grid_2x2 (empty_maze grid_2x2)
   \<and> simulations (snd (get_score_for_maze grid_2x2 (empty_maze grid_2x2) blank_solver)) = 1
   \<and> fst (get_score_for_maze grid_2x2 (empty_maze grid_2x2) blank_solver) = 2
   \<and> get_score_for_maze grid_2x2 (empty_maze grid_2x2)
         (snd (get_score_for_maze grid_2x2 (empty_maze grid_2x2) blank_solver))
       = (2, snd (get_score_for_maze grid_2x2 (empty_maze grid_2x2) blank_solver))"
proof -
  have m: "score_cache blank_solver (to_string_representation grid_2x2 (empty_maze grid_2x2)) = None"
    by (simp add: blank_solver_def)
  have s: "simulations blank_solver = 0" by (simp add: blank_solver_def)
  have c: "calculate_score grid_2x2 (empty_maze grid_2x2) = 2" by code_simp
  note t = cache_idempotent [OF refl, of grid_2x2 "empty_maze grid_2x2" blank_solver "[]"]
  from t m s have "simulations (snd (get_score_for_maze grid_2x2 (empty_maze grid_2x2) blank_solver)) = 1"
    by simp
  moreover from t m c have f: "fst (get_score_for_maze grid_2x2 (empty_maze grid_2x2) blank_solver) = 2"
    by simp
  moreover from t have "get_score_for_maze grid_2x2 (empty_maze grid_2x2)
         (snd (get_score_for_maze grid_2x2 (empty_maze grid_2x2) blank_solver))
       = (fst (get_score_for_maze grid_2x2 (empty_maze grid_2x2) blank_solver),
          snd (get_score_for_maze grid_2x2 (empty_maze grid_2x2) blank_solver))"
    by blast
  ultimately show ?thesis unfolding f by simp
qed

subsection \<open>The candidate generator\<close>

lemma gen_cell_inv: "gen_inv cfg G base acc \<Longrightarrow> gen_inv cfg G base (gen_cell cfg G cm d p acc)"
  unfolding gen_inv_def gen_cell_def Let_def by (auto simp: image_iff)

lemma fold_gen_cell_inv:
  "gen_inv cfg G base acc \<Longrightarrow> gen_inv cfg G base (fold (gen_cell cfg G cm d) ps acc)"
  by (induction ps arbitrary: acc) (simp_all add: gen_cell_inv)

lemma gen_loop_inv:
  "gen_inv cfg G base (c, q, lv) \<Longrightarrow>
   \<exists>q' lv'. gen_inv cfg G base (gen_loop cfg G jd q c lv, q', lv')"
proof (induction cfg G jd q c lv rule: gen_loop.induct)
  case (1 cfg G jd c lv)
  then show ?case by auto
next
  case (2 cfg G jd cm depth q c lv)
  show ?case
  proof (cases "jd \<le> depth")
    case True
    from "2.prems" have "gen_inv cfg G base (c, q, lv)" by (simp add: gen_inv_def)
    from "2.IH"(1) [OF True this] True show ?thesis by simp
  next
    case False
    define r where "r = gen_expand cfg G cm depth (c, q, lv)"
    from "2.prems" have "gen_inv cfg G base (c, q, lv)" by (simp add: gen_inv_def)
    then have "gen_inv cfg G base r"
      unfolding r_def gen_expand_def by (rule fold_gen_cell_inv)
    then have "gen_inv cfg G base (fst r, fst (snd r), snd (snd r))" by simp
    from "2.IH"(2) [OF False, folded r_def, OF this] False show ?thesis
      by (simp add: r_def)
  qed
qed

lemma is_wall_at_set_wall_at:
  assumes "grid_wf cfg (wall_grid m)" and "is_within_bounds cfg p" and "is_within_bounds cfg q"
  shows "is_wall_at (set_wall_at m p b) q = (if q = p then b else is_wall_at m q)"
  using grid_at_grid_set [OF assms] by (simp add: is_wall_at_def set_wall_at_def)

lemma maze_ok_set_wall_at:
  assumes "maze_ok cfg m" and "is_within_bounds cfg p"
    and "\<not> (coordinate_x p = 0 \<and> coordinate_y p = 0)"
    and "\<not> (coordinate_x p = MAZE_WIDTH cfg - 1 \<and> coordinate_y p = MAZE_HEIGHT cfg - 1)"
  shows "maze_ok cfg (set_wall_at m p True)"
proof -
  from assms(1) have wf: "grid_wf cfg (wall_grid m)" by (simp add: maze_ok_def)
  from assms(2) have sb: "is_within_bounds cfg START_POINT" and fb: "is_within_bounds cfg (FINISH_POINT cfg)"
    by (auto simp: is_within_bounds_def START_POINT_def FINISH_POINT_def)
  from assms(3) have ps: "START_POINT \<noteq> p" by (auto simp: START_POINT_def)
  from assms(4) have pf: "FINISH_POINT cfg \<noteq> p" by (auto simp: FINISH_POINT_def)
  have "grid_wf cfg (wall_grid (set_wall_at m p True))"
    using wf by (simp add: set_wall_at_def grid_wf_grid_set)
  with assms(1) ps pf show ?thesis
    unfolding maze_ok_def
    by (simp add: is_wall_at_set_wall_at [OF wf assms(2) sb] is_wall_at_set_wall_at [OF wf assms(2) fb])
qed

lemma gen_cell_ok:
  assumes "maze_ok cfg cm" and "is_within_bounds cfg p" and "gen_ok cfg acc"
  shows "gen_ok cfg (gen_cell cfg G cm d p acc)"
proof (cases "gen_cell cfg G cm d p acc = acc")
  case True
  with assms(3) show ?thesis by simp
next
  case False
  then have c: "\<not> (coordinate_x p = 0 \<and> coordinate_y p = 0)"
    "\<not> (coordinate_x p = MAZE_WIDTH cfg - 1 \<and> coordinate_y p = MAZE_HEIGHT cfg - 1)"
    by (auto simp: gen_cell_def split: if_splits)
  from maze_ok_set_wall_at [OF assms(1,2) c] assms(3) show ?thesis
    unfolding gen_ok_def gen_cell_def Let_def by auto
qed

lemma fold_gen_cell_ok:
  "maze_ok cfg cm \<Longrightarrow> \<forall>p\<in>set ps. is_within_bounds cfg p \<Longrightarrow> gen_ok cfg acc
   \<Longrightarrow> gen_ok cfg (fold (gen_cell cfg G cm d) ps acc)"
  by (induction ps arbitrary: acc) (simp_all add: gen_cell_ok)

lemma gen_loop_ok:
  "gen_ok cfg (c, q, lv) \<Longrightarrow> \<forall>x\<in>set (gen_loop cfg G jd q c lv). maze_ok cfg x"
proof (induction cfg G jd q c lv rule: gen_loop.induct)
  case (1 cfg G jd c lv)
  then show ?case by (simp add: gen_ok_def)
next
  case (2 cfg G jd cm depth q c lv)
  from "2.prems" have rest: "gen_ok cfg (c, q, lv)" and cm: "maze_ok cfg cm"
    by (simp_all add: gen_ok_def)
  show ?case
  proof (cases "jd \<le> depth")
    case True
    from "2.IH"(1) [OF True rest] True show ?thesis by simp
  next
    case False
    define r where "r = gen_expand cfg G cm depth (c, q, lv)"
    have "gen_ok cfg r"
      unfolding r_def gen_expand_def
      by (rule fold_gen_cell_ok [OF cm _ rest]) (simp add: set_cells)
    then have "gen_ok cfg (fst r, fst (snd r), snd (snd r))" by simp
    from "2.IH"(2) [OF False, folded r_def, OF this] False show ?thesis
      by (simp add: r_def)
  qed
qed

text \<open>
  C7, as the specification states it for every base layout, fails in one part: the
  generator copies the base layout and only adds walls, so when the base layout has a wall
  on the start cell, every candidate has it too.
\<close>

theorem candidate_exclusion_counterexample:
  "\<not> (\<forall>c\<in>set (generate_unique_candidates grid_2x2 {} walled_start_2x2 1).
         \<not> is_wall_at c START_POINT)"
  by code_simp

text \<open>
  C7 (amended): for every base layout, every global visited set and every jump depth
  (depth 1 in particular), the generator never returns the base layout (nor a layout with
  its canonical key), never returns a layout whose canonical key is in the global visited
  set, and never returns two layouts with the same canonical key; and when the base
  layout has the dimensions of the grid and no wall on the start or the finish cell, no
  returned layout has a wall on the start or the finish cell.
\<close>

theorem candidate_exclusion:
  "(to_string_representation cfg base
       \<notin> to_string_representation cfg ` set (generate_unique_candidates cfg G base jump_depth))
   \<and> base \<notin> set (generate_unique_candidates cfg G base jump_depth)
   \<and> (\<forall>c\<in>set (generate_unique_candidates cfg G base jump_depth).
         to_string_representation cfg c \<notin> G)
   \<and> distinct (map (to_string_representation cfg) (generate_unique_candidates cfg G base jump_depth))
   \<and> (grid_wf cfg (wall_grid base) \<and> \<not> is_wall_at base START_POINT
        \<and> \<not> is_wall_at base (FINISH_POINT cfg) \<longrightarrow>
      (\<forall>c\<in>set (generate_unique_candidates cfg G base jump_depth).
         \<not> is_wall_at c START_POINT \<and> \<not> is_wall_at c (FINISH_POINT cfg)))"
proof -
  define R where "R = generate_unique_candidates cfg G base jump_depth"
  have "gen_inv cfg G base ([], [(base, 0)], {to_string_representation cfg base})"
    by (simp add: gen_inv_def)
  from gen_loop_inv [OF this, of jump_depth] obtain q' lv' where
    inv: "gen_inv cfg G base (R, q', lv')"
    unfolding R_def generate_unique_candidates_def by blast
  have d: "distinct (map (to_string_representation cfg) R)"
    and g: "\<forall>c\<in>set R. to_string_representation cfg c \<notin> G"
    and k: "to_string_representation cfg base \<notin> to_string_representation cfg ` set R"
    using inv by (simp_all add: gen_inv_def)
  from k have n: "base \<notin> set R" by blast
  have o: "grid_wf cfg (wall_grid base) \<and> \<not> is_wall_at base START_POINT
        \<and> \<not> is_wall_at base (FINISH_POINT cfg) \<longrightarrow>
      (\<forall>c\<in>set R. \<not> is_wall_at c START_POINT \<and> \<not> is_wall_at c (FINISH_POINT cfg))"
  proof
    assume "grid_wf cfg (wall_grid base) \<and> \<not> is_wall_at base START_POINT
        \<and> \<not> is_wall_at base (FINISH_POINT cfg)"
    then have "gen_ok cfg ([], [(base, 0)], {to_string_representation cfg base})"
      by (simp add: gen_ok_def maze_ok_def)
    from gen_loop_ok [OF this, of G jump_depth]
    show "\<forall>c\<in>set R. \<not> is_wall_at c START_POINT \<and> \<not> is_wall_at c (FINISH_POINT cfg)"
      unfolding R_def generate_unique_candidates_def by (simp add: maze_ok_def)
  qed
  from k n g d o show ?thesis
    unfolding R_def by blast
qed

theorem candidate_exclusion_witness:
  "grid_wf grid_2x2 (wall_grid (empty_maze grid_2x2))
   \<and> \<not> is_wall_at (empty_maze grid_2x2) START_POINT
   \<and> \<not> is_wall_at (empty_maze grid_2x2) (FINISH_POINT grid_2x2)
   \<and> generate_unique_candidates grid_2x2 {} (empty_maze grid_2x2) 1
       = [\<lparr>wall_grid = [[False, True], [False, False]]\<rparr>, \<lparr>wall_grid = [[False, False], [True, False]]\<rparr>]
   \<and> \<not> is_wall_at \<lparr>wall_grid = [[False, True], [False, False]]\<rparr> START_POINT
   \<and> \<not> is_wall_at \<lparr>wall_grid = [[False, True], [False, False]]\<rparr> (FINISH_POINT grid_2x2)
   \<and> to_string_representation grid_2x2 \<lparr>wall_grid = [[False, True], [False, False]]\<rparr>
       \<noteq> to_string_representation grid_2x2 \<lparr>wall_grid = [[False, False], [True, False]]\<rparr>"
proof -
  have h: "grid_wf grid_2x2 (wall_grid (empty_maze grid_2x2))
      \<and> \<not> is_wall_at (empty_maze grid_2x2) START_POINT
      \<and> \<not> is_wall_at (empty_maze grid_2x2) (FINISH_POINT grid_2x2)"
    by (simp add: grid_wf_def empty_maze_def grid_2x2_def is_wall_at_def grid_at_def
        START_POINT_def FINISH_POINT_def)
  have r: "generate_unique_candidates grid_2x2 {} (empty_maze grid_2x2) 1
       = [\<lparr>wall_grid = [[False, True], [False, False]]\<rparr>, \<lparr>wall_grid = [[False, False], [True, False]]\<rparr>]"
    by code_simp
  from candidate_exclusion [of grid_2x2 "empty_maze grid_2x2" "{}" 1] h r show ?thesis
    by auto
qed

subsection \<open>Greedy-Backtrack: one iteration\<close>

lemma get_score_state:
  "\<exists>c n. snd (get_score_for_maze cfg m st) = st\<lparr>score_cache := c, simulations := n\<rparr>"
proof (cases "score_cache st (to_string_representation cfg m)")
  case None
  then show ?thesis by (auto simp: get_score_miss)
next
  case (Some v)
  have "st = st\<lparr>score_cache := score_cache st, simulations := simulations st\<rparr>" by simp
  with Some show ?thesis by (metis get_score_hit snd_conv)
qed

lemma score_candidate_props:
  "\<exists>c n. snd (score_candidate cfg b m acc) = (snd acc)\<lparr>score_cache := c, simulations := n\<rparr>"
  "\<exists>news. fst (score_candidate cfg b m acc) = fst acc @ news
      \<and> (\<forall>x\<in>set news. fst x = m \<and> snd x > b)"
proof -
  obtain score st where g: "get_score_for_maze cfg m (snd acc) = (score, st)" by fastforce
  from get_score_state [of cfg m "snd acc"] g
  show "\<exists>c n. snd (score_candidate cfg b m acc) = (snd acc)\<lparr>score_cache := c, simulations := n\<rparr>"
    by (simp add: score_candidate_def)
  show "\<exists>news. fst (score_candidate cfg b m acc) = fst acc @ news
      \<and> (\<forall>x\<in>set news. fst x = m \<and> snd x > b)"
    using g by (cases "score > b") (simp_all add: score_candidate_def)
qed

lemma fold_score_candidate_state:
  "\<exists>c n. snd (fold (score_candidate cfg b) ms acc) = (snd acc)\<lparr>score_cache := c, simulations := n\<rparr>"
proof (induction ms arbitrary: acc)
  case Nil
  have "snd acc = (snd acc)\<lparr>score_cache := score_cache (snd acc), simulations := simulations (snd acc)\<rparr>"
    by simp
  then show ?case by (metis fold_simps(1))
next
  case (Cons m ms)
  from score_candidate_props(1) [of cfg b m acc] obtain c n where
    a: "snd (score_candidate cfg b m acc) = (snd acc)\<lparr>score_cache := c, simulations := n\<rparr>" by blast
  from Cons.IH [of "score_candidate cfg b m acc"] obtain c' n' where
    "snd (fold (score_candidate cfg b) ms (score_candidate cfg b m acc))
      = (snd (score_candidate cfg b m acc))\<lparr>score_cache := c', simulations := n'\<rparr>" by blast
  then have "snd (fold (score_candidate cfg b) (m # ms) acc)
      = (snd acc)\<lparr>score_cache := c', simulations := n'\<rparr>"
    unfolding a by simp
  then show ?case by blast
qed

lemma fold_score_candidate_improvements:
  "\<exists>news. fst (fold (score_candidate cfg b) ms acc) = fst acc @ news
      \<and> (\<forall>x\<in>set news. fst x \<in> set ms \<and> snd x > b)"
proof (induction ms arbitrary: acc)
  case Nil
  then show ?case by simp
next
  case (Cons m ms)
  from score_candidate_props(2) [of cfg b m acc] obtain n1 where
    a: "fst (score_candidate cfg b m acc) = fst acc @ n1" "\<forall>x\<in>set n1. fst x = m \<and> snd x > b"
    by blast
  from Cons.IH [of "score_candidate cfg b m acc"] obtain n2 where
    b: "fst (fold (score_candidate cfg b) ms (score_candidate cfg b m acc))
      = fst (score_candidate cfg b m acc) @ n2" "\<forall>x\<in>set n2. fst x \<in> set ms \<and> snd x > b"
    by blast
  from a b have "fst (fold (score_candidate cfg b) (m # ms) acc) = fst acc @ (n1 @ n2)
      \<and> (\<forall>x\<in>set (n1 @ n2). fst x \<in> set (m # ms) \<and> snd x > b)"
    by auto
  then show ?case by blast
qed

lemma push_improvement_fields:
  "states_to_explore_stack (push_improvement cfg s st) = s # states_to_explore_stack st"
  "globally_visited_layouts (push_improvement cfg s st)
     = insert (to_string_representation cfg (fst s)) (globally_visited_layouts st)"
  "deep_jumps (push_improvement cfg s st) = deep_jumps st"
  "score_cache (push_improvement cfg s st) = score_cache st"
  "simulations (push_improvement cfg s st) = simulations st"
  by (simp_all add: push_improvement_def Let_def notify_new_record_def)

lemma fold_push_improvement_fields:
  "states_to_explore_stack (fold (push_improvement cfg) xs st) = rev xs @ states_to_explore_stack st"
  "globally_visited_layouts (fold (push_improvement cfg) xs st)
     = globally_visited_layouts st \<union> (\<lambda>s. to_string_representation cfg (fst s)) ` set xs"
  "deep_jumps (fold (push_improvement cfg) xs st) = deep_jumps st"
  "score_cache (fold (push_improvement cfg) xs st) = score_cache st"
  "simulations (fold (push_improvement cfg) xs st) = simulations st"
  by (induction xs arbitrary: st) (simp_all add: push_improvement_fields)

text \<open>The contract of the sort says that its result is ascending by score.\<close>

lemma sort_spec_iff:
  "sort_spec srt = (\<forall>xs. sorted (map snd (srt xs)) \<and> mset (srt xs) = mset xs)"
  by (simp add: sort_spec_def score_less_def not_less sorted_map)

lemma sort_spec_sorted: "sort_spec srt \<Longrightarrow> sorted (map snd (srt xs))"
  by (simp add: sort_spec_iff)

lemma sort_spec_sort_key: "sort_spec (sort_key snd)"
proof -
  have "sorted_wrt (\<lambda>a b. snd a \<le> snd b) (sort_key snd xs)" for xs :: "(Maze \<times> int) list"
    using sorted_sort_key [of snd xs] by (simp add: sorted_map)
  then show ?thesis by (simp add: sort_spec_def score_less_def not_less)
qed

lemma evaluate_deep_jumps:
  "deep_jumps (snd (evaluate_and_process_candidates cfg srt cs state st)) = deep_jumps st"
proof -
  obtain imps st1 where f: "fold (score_candidate cfg (snd state)) cs ([], st) = (imps, st1)"
    by fastforce
  from fold_score_candidate_state [of cfg "snd state" cs "([], st)"] f
  have "deep_jumps st1 = deep_jumps st" by auto
  then show ?thesis
    by (simp add: evaluate_and_process_candidates_def f fold_push_improvement_fields)
qed

lemma find_and_push_deep_jumps:
  "deep_jumps (snd (find_and_push_potential_next_states cfg srt state depth st)) = deep_jumps st"
  by (simp add: find_and_push_potential_next_states_def Let_def evaluate_deep_jumps)

lemma sorted_le_last:
  "sorted ys \<Longrightarrow> y \<in> set ys \<Longrightarrow> y \<le> last ys" for ys :: "int list"
proof (induction ys)
  case Nil
  then show ?case by simp
next
  case (Cons a ys)
  show ?case
  proof (cases "ys = []")
    case True
    with Cons.prems show ?thesis by simp
  next
    case False
    then have l: "last ys \<in> set ys" by simp
    from Cons.prems(1) have s: "sorted ys" and a: "\<forall>x\<in>set ys. a \<le> x" by simp_all
    from Cons.prems(2) have "y = a \<or> y \<in> set ys" by simp
    then show ?thesis
    proof
      assume "y = a"
      with a l False show ?thesis by simp
    next
      assume "y \<in> set ys"
      with Cons.IH [OF s] False show ?thesis by simp
    qed
  qed
qed

lemma sorted_snd_last:
  fixes xs :: "('a \<times> int) list"
  assumes "sorted (map snd xs)" and "x \<in> set xs"
  shows "snd x \<le> snd (last xs)"
proof -
  from assms(2) have ne: "xs \<noteq> []" by auto
  from assms(2) have "snd x \<in> set (map snd xs)" by simp
  from sorted_le_last [OF assms(1) this] ne show ?thesis by (simp add: last_map)
qed

text \<open>
  The walk simulator reads a layout only at cells within bounds, so its score is a
  function of the canonical key.
\<close>

lemma bfs_visit_walls_cong:
  assumes "\<forall>p. is_within_bounds cfg p \<longrightarrow> is_wall_at a p = is_wall_at b p"
  shows "bfs_visit cfg a c d qv = bfs_visit cfg b c d qv"
  using assms by (auto simp: bfs_visit_def Let_def)

lemma bfs_expand_walls_cong:
  assumes "\<forall>p. is_within_bounds cfg p \<longrightarrow> is_wall_at a p = is_wall_at b p"
  shows "bfs_expand cfg a c qv = bfs_expand cfg b c qv"
proof -
  have "bfs_visit cfg a c = bfs_visit cfg b c"
    using bfs_visit_walls_cong [OF assms] by (intro ext) simp
  then show ?thesis by (simp add: bfs_expand_def)
qed

lemma bfs_loop_walls_cong:
  "\<forall>p. is_within_bounds cfg p \<longrightarrow> is_wall_at a p = is_wall_at b p \<Longrightarrow>
   bfs_loop cfg a q visited = bfs_loop cfg b q visited"
proof (induction cfg a q visited rule: bfs_loop.induct)
  case (1 cfg m visited)
  then show ?case by simp
next
  case (2 cfg m current_point q visited)
  show ?case
  proof (cases "current_point = FINISH_POINT cfg")
    case True
    then show ?thesis by simp
  next
    case False
    from "2.IH" [OF False "2.prems"] False show ?thesis
      by (simp add: bfs_expand_walls_cong [OF "2.prems"])
  qed
qed

lemma initial_visit_counts_walls_cong:
  assumes "\<forall>p. is_within_bounds cfg p \<longrightarrow> is_wall_at a p = is_wall_at b p"
  shows "initial_visit_counts cfg a = initial_visit_counts cfg b"
proof -
  have "fold (\<lambda>p vc. if is_wall_at a p then grid_set vc p (- 1) else vc) (cells cfg) g
      = fold (\<lambda>p vc. if is_wall_at b p then grid_set vc p (- 1) else vc) (cells cfg) g"
    for g :: "int list list"
  proof (rule fold_cong)
    fix p assume "p \<in> set (cells cfg)"
    then have "is_within_bounds cfg p" by (simp add: set_cells)
    with assms have "is_wall_at a p = is_wall_at b p" by simp
    then show "(\<lambda>vc. if is_wall_at a p then grid_set vc p (- 1) else vc)
        = (\<lambda>vc. if is_wall_at b p then grid_set vc p (- 1) else vc)" by simp
  qed simp_all
  then show ?thesis by (simp add: initial_visit_counts_def)
qed

lemma calculate_score_key_cong:
  assumes "to_string_representation cfg a = to_string_representation cfg b"
  shows "calculate_score cfg a = calculate_score cfg b"
proof (cases "0 < MAZE_WIDTH cfg \<and> 0 < MAZE_HEIGHT cfg")
  case False
  with has_path_sound [of cfg a] has_path_sound [of cfg b]
  have "\<not> has_path_to_finish cfg a" "\<not> has_path_to_finish cfg b" by auto
  then show ?thesis by (simp add: calculate_score_def)
next
  case True
  from assms have w: "\<forall>p. is_within_bounds cfg p \<longrightarrow> is_wall_at a p = is_wall_at b p"
    by (simp add: key_eq_iff)
  from True have "is_within_bounds cfg START_POINT" "is_within_bounds cfg (FINISH_POINT cfg)"
    by (simp_all add: is_within_bounds_def START_POINT_def FINISH_POINT_def)
  with w have e: "is_wall_at a START_POINT = is_wall_at b START_POINT"
    "is_wall_at a (FINISH_POINT cfg) = is_wall_at b (FINISH_POINT cfg)" by simp_all
  have bl: "bfs_loop cfg a q v = bfs_loop cfg b q v" for q v
    by (rule bfs_loop_walls_cong [OF w])
  have h: "has_path_to_finish cfg a = has_path_to_finish cfg b"
    by (simp only: has_path_to_finish_def e bl)
  have i: "initial_state cfg a = initial_state cfg b"
    by (simp add: initial_state_def initial_visit_counts_walls_cong [OF w])
  show ?thesis by (simp add: calculate_score_def h i)
qed

lemma cache_consistent_cong:
  "score_cache a = score_cache b \<Longrightarrow> cache_consistent cfg a = cache_consistent cfg b"
  by (simp add: cache_consistent_def)

lemma get_score_consistent:
  assumes "cache_consistent cfg st"
  shows "fst (get_score_for_maze cfg m st) = calculate_score cfg m"
    and "cache_consistent cfg (snd (get_score_for_maze cfg m st))"
proof -
  show "fst (get_score_for_maze cfg m st) = calculate_score cfg m"
  proof (cases "score_cache st (to_string_representation cfg m)")
    case None
    then show ?thesis by (simp add: get_score_miss)
  next
    case (Some v)
    with assms have "v = calculate_score cfg m" by (simp add: cache_consistent_def)
    with Some show ?thesis by (simp add: get_score_hit)
  qed
  show "cache_consistent cfg (snd (get_score_for_maze cfg m st))"
  proof (cases "score_cache st (to_string_representation cfg m)")
    case (Some v)
    with assms show ?thesis by (simp add: get_score_hit)
  next
    case None
    show ?thesis
      unfolding cache_consistent_def
    proof (intro allI impI)
      fix m' v
      assume a: "score_cache (snd (get_score_for_maze cfg m st)) (to_string_representation cfg m') = Some v"
      show "v = calculate_score cfg m'"
      proof (cases "to_string_representation cfg m' = to_string_representation cfg m")
        case True
        with a None have "v = calculate_score cfg m" by (simp add: get_score_miss)
        with calculate_score_key_cong [OF True] show ?thesis by simp
      next
        case False
        with a None have "score_cache st (to_string_representation cfg m') = Some v"
          by (simp add: get_score_miss)
        with assms show ?thesis by (simp add: cache_consistent_def)
      qed
    qed
  qed
qed

lemma fold_score_candidate_exact:
  "cache_consistent cfg (snd acc) \<Longrightarrow>
   fst (fold (score_candidate cfg b) ms acc) = fst acc @ improving cfg b ms
   \<and> cache_consistent cfg (snd (fold (score_candidate cfg b) ms acc))"
proof (induction ms arbitrary: acc)
  case Nil
  then show ?case by (simp add: improving_def)
next
  case (Cons m ms)
  obtain score st where g: "get_score_for_maze cfg m (snd acc) = (score, st)" by fastforce
  from get_score_consistent [OF Cons.prems, of m] g
  have sc: "score = calculate_score cfg m" and cc: "cache_consistent cfg st" by simp_all
  have s1: "fst (score_candidate cfg b m acc) = fst acc @ improving cfg b [m]"
    and s2: "snd (score_candidate cfg b m acc) = st"
    using g sc by (simp_all add: score_candidate_def improving_def)
  from cc s2 have "cache_consistent cfg (snd (score_candidate cfg b m acc))" by simp
  from Cons.IH [OF this] s1
  show ?case by (simp add: improving_def)
qed

lemma sort_spec_set:
  assumes "sort_spec srt"
  shows "set (srt xs) = set xs"
proof -
  from assms have "mset (srt xs) = mset xs" by (simp add: sort_spec_def)
  then show ?thesis by (rule mset_eq_setD)
qed

lemma sort_spec_Nil: "sort_spec srt \<Longrightarrow> srt [] = []"
  using sort_spec_set [of srt "[]"] by simp

lemma evaluate_exact:
  fixes st :: greedy_solver
  assumes "cache_consistent cfg st"
  shows "\<exists>c k. cache_consistent cfg (st\<lparr>score_cache := c, simulations := k\<rparr>)
     \<and> evaluate_and_process_candidates cfg srt cs state st
        = (if improving cfg (snd state) cs \<noteq> []
           then (True, fold (push_improvement cfg) (srt (improving cfg (snd state) cs))
                         (st\<lparr>score_cache := c, simulations := k\<rparr>))
           else (False, st\<lparr>score_cache := c, simulations := k\<rparr>))"
proof -
  obtain imps st1 where f: "fold (score_candidate cfg (snd state)) cs ([], st) = (imps, st1)"
    by fastforce
  from fold_score_candidate_state [of cfg "snd state" cs "([], st)"] f obtain c k where
    st1: "st1 = st\<lparr>score_cache := c, simulations := k\<rparr>" by auto
  from fold_score_candidate_exact [of cfg "([], st)" "snd state" cs] assms f
  have i: "imps = improving cfg (snd state) cs" and cc: "cache_consistent cfg st1" by simp_all
  have "evaluate_and_process_candidates cfg srt cs state st
        = (if improving cfg (snd state) cs \<noteq> []
           then (True, fold (push_improvement cfg) (srt (improving cfg (snd state) cs)) st1)
           else (False, st1))"
    by (simp add: evaluate_and_process_candidates_def f i)
  with cc show ?thesis unfolding st1 by blast
qed

lemma find_and_push_exact:
  fixes st :: greedy_solver
  assumes "sort_spec srt" and "cache_consistent cfg st"
  shows "fst (find_and_push_potential_next_states cfg srt state depth st)
      = (improving cfg (snd state)
           (generate_unique_candidates cfg (globally_visited_layouts st) (fst state) depth) \<noteq> [])"
    and "states_to_explore_stack (snd (find_and_push_potential_next_states cfg srt state depth st))
      = rev (srt (improving cfg (snd state)
           (generate_unique_candidates cfg (globally_visited_layouts st) (fst state) depth)))
        @ states_to_explore_stack st"
    and "globally_visited_layouts (snd (find_and_push_potential_next_states cfg srt state depth st))
      = globally_visited_layouts st
        \<union> (\<lambda>s. to_string_representation cfg (fst s)) `
            set (improving cfg (snd state)
              (generate_unique_candidates cfg (globally_visited_layouts st) (fst state) depth))"
    and "cache_consistent cfg (snd (find_and_push_potential_next_states cfg srt state depth st))"
proof -
  define cs where "cs = generate_unique_candidates cfg (globally_visited_layouts st) (fst state) depth"
  define imps where "imps = improving cfg (snd state) cs"
  define r where "r = find_and_push_potential_next_states cfg srt state depth st"
  have all: "fst r = (imps \<noteq> [])
      \<and> states_to_explore_stack (snd r) = rev (srt imps) @ states_to_explore_stack st
      \<and> globally_visited_layouts (snd r)
          = globally_visited_layouts st \<union> (\<lambda>s. to_string_representation cfg (fst s)) ` set imps
      \<and> cache_consistent cfg (snd r)"
  proof (cases "cs = []")
    case True
    then have "imps = []" by (simp add: imps_def improving_def)
    moreover from True have "r = (False, st)"
      by (simp add: r_def find_and_push_potential_next_states_def cs_def [symmetric])
    ultimately show ?thesis using assms by (simp add: sort_spec_Nil)
  next
    case False
    then have r: "r = evaluate_and_process_candidates cfg srt cs state st"
      by (simp add: r_def find_and_push_potential_next_states_def cs_def [symmetric])
    from evaluate_exact [OF assms(2), of srt cs state] obtain c k where
      cc: "cache_consistent cfg (st\<lparr>score_cache := c, simulations := k\<rparr>)"
      and e: "r = (if imps \<noteq> []
           then (True, fold (push_improvement cfg) (srt imps) (st\<lparr>score_cache := c, simulations := k\<rparr>))
           else (False, st\<lparr>score_cache := c, simulations := k\<rparr>))"
      unfolding r imps_def by blast
    show ?thesis
    proof (cases "imps = []")
      case True
      with e cc assms(1) show ?thesis by (simp add: sort_spec_Nil)
    next
      case False
      have "cache_consistent cfg (fold (push_improvement cfg) (srt imps) (st\<lparr>score_cache := c, simulations := k\<rparr>))
          = cache_consistent cfg (st\<lparr>score_cache := c, simulations := k\<rparr>)"
        by (rule cache_consistent_cong) (simp add: fold_push_improvement_fields)
      with False e cc sort_spec_set [OF assms(1), of imps] show ?thesis
        by (simp add: fold_push_improvement_fields)
    qed
  qed
  from all show "fst (find_and_push_potential_next_states cfg srt state depth st)
      = (improving cfg (snd state)
           (generate_unique_candidates cfg (globally_visited_layouts st) (fst state) depth) \<noteq> [])"
    unfolding r_def imps_def cs_def by simp
  from all show "states_to_explore_stack (snd (find_and_push_potential_next_states cfg srt state depth st))
      = rev (srt (improving cfg (snd state)
           (generate_unique_candidates cfg (globally_visited_layouts st) (fst state) depth)))
        @ states_to_explore_stack st"
    unfolding r_def imps_def cs_def by simp
  from all show "globally_visited_layouts (snd (find_and_push_potential_next_states cfg srt state depth st))
      = globally_visited_layouts st
        \<union> (\<lambda>s. to_string_representation cfg (fst s)) `
            set (improving cfg (snd state)
              (generate_unique_candidates cfg (globally_visited_layouts st) (fst state) depth))"
    unfolding r_def imps_def cs_def by simp
  from all show "cache_consistent cfg (snd (find_and_push_potential_next_states cfg srt state depth st))"
    unfolding r_def by simp
qed

lemma solve_iteration_unfold:
  assumes "states_to_explore_stack st = cur # rest"
  shows "solve_iteration cfg srt st =
     (if \<not> fst (find_and_push_potential_next_states cfg srt cur 1 (st\<lparr>states_to_explore_stack := rest\<rparr>))
         \<and> DEEP_JUMP_DEPTH cfg > 1
      then snd (find_and_push_potential_next_states cfg srt cur (DEEP_JUMP_DEPTH cfg)
             ((snd (find_and_push_potential_next_states cfg srt cur 1 (st\<lparr>states_to_explore_stack := rest\<rparr>)))
                \<lparr>deep_jumps := deep_jumps (snd (find_and_push_potential_next_states cfg srt cur 1
                     (st\<lparr>states_to_explore_stack := rest\<rparr>))) + 1\<rparr>))
      else snd (find_and_push_potential_next_states cfg srt cur 1 (st\<lparr>states_to_explore_stack := rest\<rparr>)))"
  by (simp add: solve_iteration_def assms case_prod_beta)

lemma solve_iteration_consistent:
  assumes "sort_spec srt" and "cache_consistent cfg st"
  shows "cache_consistent cfg (solve_iteration cfg srt st)"
proof (cases "states_to_explore_stack st")
  case Nil
  with assms(2) show ?thesis by (simp add: solve_iteration_def)
next
  case (Cons cur rest)
  define st0 where "st0 = st\<lparr>states_to_explore_stack := rest\<rparr>"
  define r1 where "r1 = snd (find_and_push_potential_next_states cfg srt cur 1 st0)"
  have "cache_consistent cfg st0 = cache_consistent cfg st"
    by (rule cache_consistent_cong) (simp add: st0_def)
  with assms(2) have c0: "cache_consistent cfg st0" by simp
  have c1: "cache_consistent cfg r1"
    unfolding r1_def by (rule find_and_push_exact(4) [OF assms(1) c0])
  have "cache_consistent cfg (r1\<lparr>deep_jumps := deep_jumps r1 + 1\<rparr>) = cache_consistent cfg r1"
    by (rule cache_consistent_cong) simp
  with c1 have c2: "cache_consistent cfg (r1\<lparr>deep_jumps := deep_jumps r1 + 1\<rparr>)" by simp
  have c3: "cache_consistent cfg (snd (find_and_push_potential_next_states cfg srt cur (DEEP_JUMP_DEPTH cfg)
             (r1\<lparr>deep_jumps := deep_jumps r1 + 1\<rparr>)))"
    by (rule find_and_push_exact(4) [OF assms(1) c2])
  show ?thesis
    unfolding solve_iteration_unfold [OF Cons] st0_def [symmetric] r1_def [symmetric]
    using c1 c3 by simp
qed

lemma solve_start_consistent: "cache_consistent cfg (solve_start cfg)"
proof -
  have b: "cache_consistent cfg blank_greedy_solver"
    by (simp add: cache_consistent_def blank_greedy_solver_def)
  have "cache_consistent cfg (solve_start cfg)
      = cache_consistent cfg (snd (get_score_for_maze cfg (empty_maze cfg) blank_greedy_solver))"
    by (rule cache_consistent_cong)
       (simp add: solve_start_def SolverBase_init_def Let_def case_prod_beta notify_new_record_def)
  with get_score_consistent(2) [OF b] show ?thesis by simp
qed

lemma solve_run_consistent:
  "sort_spec srt \<Longrightarrow> cache_consistent cfg (solve_run cfg srt n)"
  unfolding solve_run_def
  by (induction n) (simp_all add: solve_start_consistent solve_iteration_consistent)

text \<open>
  C8: take any iteration of a Greedy-Backtrack run, popping \<open>cur\<close> from the state
  \<open>st\<close> and leaving the state \<open>st'\<close>. Let \<open>cands\<close> be the depth-1 candidates the
  generator returns for the popped layout, \<open>imps\<close> those whose walk-simulator score is
  strictly above the popped entry's score, each paired with that score, and \<open>deep\<close> the
  same for the candidates generated at depth \<open>DEEP_JUMP_DEPTH\<close>.

  If \<open>imps\<close> is not empty, the stack is the list \<open>imps\<close> sorted ascending by score,
  reversed, on top of the rest: every improving candidate is pushed, in ascending order,
  and the top of the stack, which the next iteration pops, is a depth-1 candidate, is
  paired with its own score, scores strictly above the popped entry and at least as high
  as every depth-1 candidate. The global visited set has grown by exactly the canonical
  keys of the pushed candidates, each added by the push itself, and no deep jump was
  attempted: the whole state is the one the depth-1 call alone leaves.

  If \<open>imps\<close> is empty and \<open>DEEP_JUMP_DEPTH > 1\<close>, the deep jump is attempted from the same
  popped entry with the same rule: the stack is \<open>deep\<close> sorted and reversed on top of the
  rest, and the visited set has grown by the keys of \<open>deep\<close>. If \<open>imps\<close> is empty and
  \<open>DEEP_JUMP_DEPTH \<le> 1\<close>, nothing is pushed and no deep jump is attempted.
\<close>

theorem greedy_step:
  assumes "sort_spec srt"
    and "st = solve_run cfg srt n"
    and "st' = solve_run cfg srt (Suc n)"
    and "states_to_explore_stack st = cur # rest"
    and "cands = generate_unique_candidates cfg (globally_visited_layouts st) (fst cur) 1"
    and "imps = filter (\<lambda>x. snd cur < snd x) (map (\<lambda>c. (c, calculate_score cfg c)) cands)"
    and "deep = filter (\<lambda>x. snd cur < snd x) (map (\<lambda>c. (c, calculate_score cfg c))
           (generate_unique_candidates cfg (globally_visited_layouts st) (fst cur) (DEEP_JUMP_DEPTH cfg)))"
  shows
   "(imps \<noteq> [] \<longrightarrow>
        states_to_explore_stack st' = rev (srt imps) @ rest
      \<and> sorted (map snd (srt imps))
      \<and> mset (srt imps) = mset imps
      \<and> fst (hd (states_to_explore_stack st')) \<in> set cands
      \<and> snd (hd (states_to_explore_stack st'))
          = calculate_score cfg (fst (hd (states_to_explore_stack st')))
      \<and> snd cur < snd (hd (states_to_explore_stack st'))
      \<and> (\<forall>c\<in>set cands. calculate_score cfg c \<le> snd (hd (states_to_explore_stack st')))
      \<and> globally_visited_layouts st'
          = globally_visited_layouts st \<union> (\<lambda>s. to_string_representation cfg (fst s)) ` set imps
      \<and> deep_jumps st' = deep_jumps st)
    \<and> (imps = [] \<and> DEEP_JUMP_DEPTH cfg > 1 \<longrightarrow>
        deep_jumps st' = deep_jumps st + 1
      \<and> states_to_explore_stack st' = rev (srt deep) @ rest
      \<and> globally_visited_layouts st'
          = globally_visited_layouts st \<union> (\<lambda>s. to_string_representation cfg (fst s)) ` set deep)
    \<and> (imps = [] \<and> \<not> DEEP_JUMP_DEPTH cfg > 1 \<longrightarrow>
        deep_jumps st' = deep_jumps st
      \<and> states_to_explore_stack st' = rest
      \<and> globally_visited_layouts st' = globally_visited_layouts st)
    \<and> (imps \<noteq> [] \<or> \<not> DEEP_JUMP_DEPTH cfg > 1 \<longrightarrow>
        st' = snd (find_and_push_potential_next_states cfg srt cur 1
                     (st\<lparr>states_to_explore_stack := rest\<rparr>)))
    \<and> (\<forall>s st0. states_to_explore_stack (push_improvement cfg s st0) = s # states_to_explore_stack st0
          \<and> globally_visited_layouts (push_improvement cfg s st0)
              = insert (to_string_representation cfg (fst s)) (globally_visited_layouts st0))"
proof -
  define st0 where "st0 = st\<lparr>states_to_explore_stack := rest\<rparr>"
  define r1 where "r1 = find_and_push_potential_next_states cfg srt cur 1 st0"
  define st2 where "st2 = (snd r1)\<lparr>deep_jumps := deep_jumps (snd r1) + 1\<rparr>"
  define r2 where "r2 = find_and_push_potential_next_states cfg srt cur (DEEP_JUMP_DEPTH cfg) st2"
  have i1: "imps = improving cfg (snd cur) cands"
    by (simp add: assms(6) improving_def)
  have cc: "cache_consistent cfg st"
    unfolding assms(2) by (rule solve_run_consistent [OF assms(1)])
  have "cache_consistent cfg st0 = cache_consistent cfg st"
    by (rule cache_consistent_cong) (simp add: st0_def)
  with cc have c0: "cache_consistent cfg st0" by simp
  have g0: "generate_unique_candidates cfg (globally_visited_layouts st0) (fst cur) 1 = cands"
    by (simp add: st0_def assms(5))
  have f1: "fst r1 = (imps \<noteq> [])"
    and s1: "states_to_explore_stack (snd r1) = rev (srt imps) @ rest"
    and v1: "globally_visited_layouts (snd r1)
        = globally_visited_layouts st \<union> (\<lambda>s. to_string_representation cfg (fst s)) ` set imps"
    and c1: "cache_consistent cfg (snd r1)"
    using find_and_push_exact [OF assms(1) c0, of cur 1]
    unfolding r1_def [symmetric] g0 i1 [symmetric] by (simp_all add: st0_def)
  have d1: "deep_jumps (snd r1) = deep_jumps st"
    unfolding r1_def by (simp add: find_and_push_deep_jumps st0_def)
  have it: "st' = (if \<not> fst r1 \<and> DEEP_JUMP_DEPTH cfg > 1 then snd r2 else snd r1)"
    unfolding assms(3) solve_run_def funpow.simps o_apply
    unfolding solve_run_def [symmetric] assms(2) [symmetric]
    unfolding solve_iteration_unfold [OF assms(4)] st0_def [symmetric] r1_def [symmetric]
      st2_def [symmetric] r2_def [symmetric] ..
  have srt: "sorted (map snd (srt imps))" "mset (srt imps) = mset imps" "set (srt imps) = set imps"
    using assms(1) by (simp_all add: sort_spec_sorted sort_spec_set) (simp add: sort_spec_def)
  have p1: "imps \<noteq> [] \<longrightarrow>
        states_to_explore_stack st' = rev (srt imps) @ rest
      \<and> fst (hd (states_to_explore_stack st')) \<in> set cands
      \<and> snd (hd (states_to_explore_stack st'))
          = calculate_score cfg (fst (hd (states_to_explore_stack st')))
      \<and> snd cur < snd (hd (states_to_explore_stack st'))
      \<and> (\<forall>c\<in>set cands. calculate_score cfg c \<le> snd (hd (states_to_explore_stack st')))
      \<and> globally_visited_layouts st'
          = globally_visited_layouts st \<union> (\<lambda>s. to_string_representation cfg (fst s)) ` set imps
      \<and> deep_jumps st' = deep_jumps st"
  proof
    assume ne: "imps \<noteq> []"
    with it f1 have e: "st' = snd r1" by simp
    from ne srt(3) have sne: "srt imps \<noteq> []" by auto
    define top where "top = last (srt imps)"
    have hd: "hd (states_to_explore_stack st') = top"
      unfolding e s1 top_def using sne by (simp add: hd_rev)
    from sne srt(3) have "top \<in> set imps" unfolding top_def by (metis last_in_set)
    then have t: "fst top \<in> set cands" "snd top = calculate_score cfg (fst top)" "snd cur < snd top"
      unfolding assms(6) by auto
    have mx: "\<forall>c\<in>set cands. calculate_score cfg c \<le> snd top"
    proof
      fix c assume c: "c \<in> set cands"
      show "calculate_score cfg c \<le> snd top"
      proof (cases "snd cur < calculate_score cfg c")
        case True
        with c have "(c, calculate_score cfg c) \<in> set imps"
          unfolding assms(6) by simp
        then have "(c, calculate_score cfg c) \<in> set (srt imps)"
          by (simp only: srt(3))
        from sorted_snd_last [OF srt(1) this] show ?thesis by (simp add: top_def)
      next
        case False
        with t(3) show ?thesis by simp
      qed
    qed
    show "states_to_explore_stack st' = rev (srt imps) @ rest
      \<and> fst (hd (states_to_explore_stack st')) \<in> set cands
      \<and> snd (hd (states_to_explore_stack st'))
          = calculate_score cfg (fst (hd (states_to_explore_stack st')))
      \<and> snd cur < snd (hd (states_to_explore_stack st'))
      \<and> (\<forall>c\<in>set cands. calculate_score cfg c \<le> snd (hd (states_to_explore_stack st')))
      \<and> globally_visited_layouts st'
          = globally_visited_layouts st \<union> (\<lambda>s. to_string_representation cfg (fst s)) ` set imps
      \<and> deep_jumps st' = deep_jumps st"
      unfolding hd using t mx unfolding e using s1 v1 d1 by simp
  qed
  have p2: "imps = [] \<and> DEEP_JUMP_DEPTH cfg > 1 \<longrightarrow>
        deep_jumps st' = deep_jumps st + 1
      \<and> states_to_explore_stack st' = rev (srt deep) @ rest
      \<and> globally_visited_layouts st'
          = globally_visited_layouts st \<union> (\<lambda>s. to_string_representation cfg (fst s)) ` set deep"
  proof
    assume a: "imps = [] \<and> DEEP_JUMP_DEPTH cfg > 1"
    with it f1 have e: "st' = snd r2" by simp
    have "cache_consistent cfg st2 = cache_consistent cfg (snd r1)"
      by (rule cache_consistent_cong) (simp add: st2_def)
    with c1 have c2: "cache_consistent cfg st2" by simp
    from a s1 v1 assms(1) have f2: "states_to_explore_stack st2 = rest"
      "globally_visited_layouts st2 = globally_visited_layouts st"
      by (simp_all add: st2_def sort_spec_Nil)
    have dp: "improving cfg (snd cur)
        (generate_unique_candidates cfg (globally_visited_layouts st) (fst cur) (DEEP_JUMP_DEPTH cfg)) = deep"
      by (simp add: assms(7) improving_def)
    from find_and_push_exact(2,3) [OF assms(1) c2, of cur "DEEP_JUMP_DEPTH cfg"]
    have "states_to_explore_stack (snd r2) = rev (srt deep) @ rest"
      "globally_visited_layouts (snd r2)
          = globally_visited_layouts st \<union> (\<lambda>s. to_string_representation cfg (fst s)) ` set deep"
      unfolding r2_def [symmetric] f2 by (simp_all only: dp)
    moreover have "deep_jumps (snd r2) = deep_jumps st + 1"
      unfolding r2_def by (simp add: find_and_push_deep_jumps st2_def d1)
    ultimately show "deep_jumps st' = deep_jumps st + 1
      \<and> states_to_explore_stack st' = rev (srt deep) @ rest
      \<and> globally_visited_layouts st'
          = globally_visited_layouts st \<union> (\<lambda>s. to_string_representation cfg (fst s)) ` set deep"
      unfolding e by simp
  qed
  have p3: "imps = [] \<and> \<not> DEEP_JUMP_DEPTH cfg > 1 \<longrightarrow>
        deep_jumps st' = deep_jumps st
      \<and> states_to_explore_stack st' = rest
      \<and> globally_visited_layouts st' = globally_visited_layouts st"
  proof
    assume a: "imps = [] \<and> \<not> DEEP_JUMP_DEPTH cfg > 1"
    with it have e: "st' = snd r1" by simp
    from a s1 v1 d1 assms(1) show "deep_jumps st' = deep_jumps st
      \<and> states_to_explore_stack st' = rest
      \<and> globally_visited_layouts st' = globally_visited_layouts st"
      unfolding e by (simp add: sort_spec_Nil)
  qed
  have p4: "imps \<noteq> [] \<or> \<not> DEEP_JUMP_DEPTH cfg > 1 \<longrightarrow>
        st' = snd (find_and_push_potential_next_states cfg srt cur 1
                     (st\<lparr>states_to_explore_stack := rest\<rparr>))"
    using it f1 unfolding r1_def st0_def by auto
  have p5: "\<forall>s st0. states_to_explore_stack (push_improvement cfg s st0) = s # states_to_explore_stack st0
          \<and> globally_visited_layouts (push_improvement cfg s st0)
              = insert (to_string_representation cfg (fst s)) (globally_visited_layouts st0)"
    by (simp add: push_improvement_fields)
  from p1 p2 p3 p4 p5 srt(1,2) show ?thesis by blast
qed

theorem greedy_step_witness:
  "sort_spec (sort_key snd)
   \<and> states_to_explore_stack (solve_run grid_4x3 (sort_key snd) 0) = [(empty_maze grid_4x3, 5)]
   \<and> filter (\<lambda>x. 5 < snd x) (map (\<lambda>c. (c, calculate_score grid_4x3 c))
        (generate_unique_candidates grid_4x3
           (globally_visited_layouts (solve_run grid_4x3 (sort_key snd) 0)) (empty_maze grid_4x3) 1))
       = [(wall_1_2_4x3, 7), (wall_2_2_4x3, 9)]
   \<and> states_to_explore_stack (solve_run grid_4x3 (sort_key snd) (Suc 0))
       = [(wall_2_2_4x3, 9), (wall_1_2_4x3, 7)]
   \<and> globally_visited_layouts (solve_run grid_4x3 (sort_key snd) (Suc 0))
       = globally_visited_layouts (solve_run grid_4x3 (sort_key snd) 0)
         \<union> {to_string_representation grid_4x3 wall_1_2_4x3, to_string_representation grid_4x3 wall_2_2_4x3}
   \<and> deep_jumps (solve_run grid_4x3 (sort_key snd) (Suc 0))
       = deep_jumps (solve_run grid_4x3 (sort_key snd) 0)
   \<and> states_to_explore_stack (solve_run grid_2x5 (sort_key snd) 0) = [(empty_maze grid_2x5, 5)]
   \<and> filter (\<lambda>x. 5 < snd x) (map (\<lambda>c. (c, calculate_score grid_2x5 c))
        (generate_unique_candidates grid_2x5
           (globally_visited_layouts (solve_run grid_2x5 (sort_key snd) 0)) (empty_maze grid_2x5) 1))
       = []
   \<and> filter (\<lambda>x. 5 < snd x) (map (\<lambda>c. (c, calculate_score grid_2x5 c))
        (generate_unique_candidates grid_2x5
           (globally_visited_layouts (solve_run grid_2x5 (sort_key snd) 0)) (empty_maze grid_2x5) 2))
       = [(walls_0_1_and_1_3_2x5, 7)]
   \<and> states_to_explore_stack (solve_run grid_2x5 (sort_key snd) (Suc 0)) = [(walls_0_1_and_1_3_2x5, 7)]
   \<and> globally_visited_layouts (solve_run grid_2x5 (sort_key snd) (Suc 0))
       = globally_visited_layouts (solve_run grid_2x5 (sort_key snd) 0)
         \<union> {to_string_representation grid_2x5 walls_0_1_and_1_3_2x5}
   \<and> deep_jumps (solve_run grid_2x5 (sort_key snd) (Suc 0))
       = deep_jumps (solve_run grid_2x5 (sort_key snd) 0) + 1"
proof -
  have h: "states_to_explore_stack (solve_run grid_4x3 (sort_key snd) 0) = [(empty_maze grid_4x3, 5)]"
    by code_simp
  have i: "filter (\<lambda>x. 5 < snd x) (map (\<lambda>c. (c, calculate_score grid_4x3 c))
        (generate_unique_candidates grid_4x3
           (globally_visited_layouts (solve_run grid_4x3 (sort_key snd) 0)) (empty_maze grid_4x3) 1))
       = [(wall_1_2_4x3, 7), (wall_2_2_4x3, 9)]"
    by code_simp
  have s: "sort_key snd [(wall_1_2_4x3, 7 :: int), (wall_2_2_4x3, 9)]
      = [(wall_1_2_4x3, 7), (wall_2_2_4x3, 9)]"
    by simp
  have h': "states_to_explore_stack (solve_run grid_2x5 (sort_key snd) 0) = [(empty_maze grid_2x5, 5)]"
    by code_simp
  have i': "filter (\<lambda>x. 5 < snd x) (map (\<lambda>c. (c, calculate_score grid_2x5 c))
        (generate_unique_candidates grid_2x5
           (globally_visited_layouts (solve_run grid_2x5 (sort_key snd) 0)) (empty_maze grid_2x5) 1))
       = []"
    by code_simp
  have j': "filter (\<lambda>x. 5 < snd x) (map (\<lambda>c. (c, calculate_score grid_2x5 c))
        (generate_unique_candidates grid_2x5
           (globally_visited_layouts (solve_run grid_2x5 (sort_key snd) 0)) (empty_maze grid_2x5) 2))
       = [(walls_0_1_and_1_3_2x5, 7)]"
    by code_simp
  have d: "DEEP_JUMP_DEPTH grid_2x5 = 2" by (simp add: grid_2x5_def)
  have a: "states_to_explore_stack (solve_run grid_4x3 (sort_key snd) (Suc 0))
       = [(wall_2_2_4x3, 9), (wall_1_2_4x3, 7)]
   \<and> globally_visited_layouts (solve_run grid_4x3 (sort_key snd) (Suc 0))
       = globally_visited_layouts (solve_run grid_4x3 (sort_key snd) 0)
         \<union> {to_string_representation grid_4x3 wall_1_2_4x3, to_string_representation grid_4x3 wall_2_2_4x3}
   \<and> deep_jumps (solve_run grid_4x3 (sort_key snd) (Suc 0))
       = deep_jumps (solve_run grid_4x3 (sort_key snd) 0)"
    using greedy_step [OF sort_spec_sort_key refl refl h refl refl refl, THEN conjunct1] i s
    by simp
  have b: "states_to_explore_stack (solve_run grid_2x5 (sort_key snd) (Suc 0)) = [(walls_0_1_and_1_3_2x5, 7)]
   \<and> globally_visited_layouts (solve_run grid_2x5 (sort_key snd) (Suc 0))
       = globally_visited_layouts (solve_run grid_2x5 (sort_key snd) 0)
         \<union> {to_string_representation grid_2x5 walls_0_1_and_1_3_2x5}
   \<and> deep_jumps (solve_run grid_2x5 (sort_key snd) (Suc 0))
       = deep_jumps (solve_run grid_2x5 (sort_key snd) 0) + 1"
    using greedy_step [OF sort_spec_sort_key refl refl h' refl refl refl, THEN conjunct2, THEN conjunct1]
      i' j' d
    by simp
  from a b h i h' i' j' sort_spec_sort_key show ?thesis by simp
qed

subsection \<open>The notifications of a run\<close>

lemma sorted_wrt_less_snoc:
  fixes xs :: "int list"
  assumes "sorted_wrt (<) xs" and "xs \<noteq> []" and "last xs < y"
  shows "sorted_wrt (<) (xs @ [y])"
proof -
  have "\<forall>x\<in>set xs. x < y"
  proof
    fix x assume x: "x \<in> set xs"
    from assms(1) have "sorted xs" by (rule strict_sorted_imp_sorted)
    from sorted_le_last [OF this x] assms(3) show "x < y" by simp
  qed
  with assms(1) show ?thesis by (simp add: sorted_wrt_append)
qed

text \<open>The update rule, as it stands in both solvers, keeps the first three parts.\<close>

lemma update_rule_records:
  fixes m :: Maze and score :: int and st :: "'a solver_base_scheme"
  assumes "records st \<noteq> []" and "sorted_wrt (<) (map snd (records st))"
    and "highest_known_score st = snd (last (records st))"
  defines "st' \<equiv> (if score > highest_known_score st
                 then notify_new_record m score (st\<lparr>highest_known_score := score\<rparr>)
                 else st)"
  shows "records st' \<noteq> [] \<and> sorted_wrt (<) (map snd (records st'))
     \<and> highest_known_score st' = snd (last (records st'))
     \<and> (\<exists>new. records st' = records st @ new \<and> set new \<subseteq> {(m, score)})"
proof (cases "score > highest_known_score st")
  case False
  with assms show ?thesis by simp
next
  case True
  then have r: "records st' = records st @ [(m, score)]" and h: "highest_known_score st' = score"
    by (simp_all add: st'_def notify_new_record_def)
  from True assms(1,3) have "last (map snd (records st)) < score"
    by (simp add: last_map)
  from sorted_wrt_less_snoc [OF assms(2) _ this] assms(1)
  have "sorted_wrt (<) (map snd (records st'))" unfolding r by simp
  with r h show ?thesis by simp
qed

lemma push_improvement_record_inv:
  assumes "record_inv cfg st" and "score_cache st (to_string_representation cfg (fst s)) = Some (snd s)"
  shows "record_inv cfg (push_improvement cfg s st)
     \<and> (\<exists>new. records (push_improvement cfg s st) = records st @ new)"
proof -
  define st1 where "st1 = (if snd s > highest_known_score st
                 then notify_new_record (fst s) (snd s) (st\<lparr>highest_known_score := snd s\<rparr>)
                 else st)"
  from assms(1) have a: "records st \<noteq> []" "sorted_wrt (<) (map snd (records st))"
    "highest_known_score st = snd (last (records st))"
    and adm: "\<forall>r\<in>set (records st).
            to_string_representation cfg (fst r) \<in> globally_visited_layouts st
            \<and> score_cache st (to_string_representation cfg (fst r)) = Some (snd r)"
    by (simp_all add: record_inv_def)
  from update_rule_records [OF a, of "snd s" "fst s"] obtain new where
    u: "records st1 \<noteq> []" "sorted_wrt (<) (map snd (records st1))"
    "highest_known_score st1 = snd (last (records st1))"
    "records st1 = records st @ new" "set new \<subseteq> {(fst s, snd s)}"
    unfolding st1_def by blast
  have f: "score_cache st1 = score_cache st" "globally_visited_layouts st1 = globally_visited_layouts st"
    by (simp_all add: st1_def notify_new_record_def)
  have p: "push_improvement cfg s st = st1\<lparr>states_to_explore_stack := s # states_to_explore_stack st1,
              globally_visited_layouts :=
                insert (to_string_representation cfg (fst s)) (globally_visited_layouts st1)\<rparr>"
    by (simp add: push_improvement_def st1_def Let_def)
  have "\<forall>r\<in>set (records st1).
            to_string_representation cfg (fst r)
              \<in> insert (to_string_representation cfg (fst s)) (globally_visited_layouts st1)
            \<and> score_cache st1 (to_string_representation cfg (fst r)) = Some (snd r)"
    using adm u(4,5) assms(2) unfolding f by auto
  with u show ?thesis
    unfolding p record_inv_def by simp
qed

lemma fold_push_improvement_record_inv:
  "record_inv cfg st \<Longrightarrow>
   \<forall>s\<in>set xs. score_cache st (to_string_representation cfg (fst s)) = Some (snd s) \<Longrightarrow>
   record_inv cfg (fold (push_improvement cfg) xs st)
     \<and> (\<exists>new. records (fold (push_improvement cfg) xs st) = records st @ new)"
proof (induction xs arbitrary: st)
  case Nil
  then show ?case by simp
next
  case (Cons s xs)
  from Cons.prems have c: "score_cache st (to_string_representation cfg (fst s)) = Some (snd s)"
    by simp
  from push_improvement_record_inv [OF Cons.prems(1) c] obtain n1 where
    a: "record_inv cfg (push_improvement cfg s st)" "records (push_improvement cfg s st) = records st @ n1"
    by blast
  from Cons.prems(2) have "\<forall>x\<in>set xs.
      score_cache (push_improvement cfg s st) (to_string_representation cfg (fst x)) = Some (snd x)"
    by (simp add: push_improvement_fields)
  from Cons.IH [OF a(1) this] obtain n2 where
    "record_inv cfg (fold (push_improvement cfg) xs (push_improvement cfg s st))"
    "records (fold (push_improvement cfg) xs (push_improvement cfg s st))
       = records (push_improvement cfg s st) @ n2" by blast
  with a(2) show ?case by simp
qed

lemma score_candidate_cache:
  "(\<forall>k v. score_cache (snd acc) k = Some v \<longrightarrow> score_cache (snd (score_candidate cfg b m acc)) k = Some v)
   \<and> (\<forall>x\<in>set (fst (score_candidate cfg b m acc)).
         x \<in> set (fst acc)
         \<or> score_cache (snd (score_candidate cfg b m acc)) (to_string_representation cfg (fst x)) = Some (snd x))"
proof -
  obtain score st where g: "get_score_for_maze cfg m (snd acc) = (score, st)" by fastforce
  from get_score_stores [of cfg m "snd acc"] g
  have s: "score_cache st (to_string_representation cfg m) = Some score" by simp
  from get_score_keeps [of "snd acc" _ _ cfg m] g
  have k: "\<forall>k v. score_cache (snd acc) k = Some v \<longrightarrow> score_cache st k = Some v" by simp
  from s k show ?thesis by (auto simp: score_candidate_def g)
qed

lemma fold_score_candidate_cache:
  "\<forall>x\<in>set (fst acc). score_cache (snd acc) (to_string_representation cfg (fst x)) = Some (snd x) \<Longrightarrow>
   (\<forall>k v. score_cache (snd acc) k = Some v
        \<longrightarrow> score_cache (snd (fold (score_candidate cfg b) ms acc)) k = Some v)
   \<and> (\<forall>x\<in>set (fst (fold (score_candidate cfg b) ms acc)).
         score_cache (snd (fold (score_candidate cfg b) ms acc)) (to_string_representation cfg (fst x))
           = Some (snd x))"
proof (induction ms arbitrary: acc)
  case Nil
  then show ?case by simp
next
  case (Cons m ms)
  note sc = score_candidate_cache [of acc cfg b m]
  from sc Cons.prems have p: "\<forall>x\<in>set (fst (score_candidate cfg b m acc)).
      score_cache (snd (score_candidate cfg b m acc)) (to_string_representation cfg (fst x)) = Some (snd x)"
    by blast
  from Cons.IH [OF p] sc show ?case by simp
qed

lemma record_inv_cache:
  fixes st :: "'a solver_base_scheme"
  assumes "record_inv cfg st" and "\<forall>k v. score_cache st k = Some v \<longrightarrow> c k = Some v"
  shows "record_inv cfg (st\<lparr>score_cache := c, simulations := n\<rparr>)"
  using assms by (simp add: record_inv_def)

lemma evaluate_record_inv:
  assumes "sort_spec srt" and "record_inv cfg st"
  shows "record_inv cfg (snd (evaluate_and_process_candidates cfg srt cs state st))
     \<and> (\<exists>new. records (snd (evaluate_and_process_candidates cfg srt cs state st)) = records st @ new)"
proof -
  define imps where "imps = fst (fold (score_candidate cfg (snd state)) cs ([], st))"
  define st1 where "st1 = snd (fold (score_candidate cfg (snd state)) cs ([], st))"
  have f: "fold (score_candidate cfg (snd state)) cs ([], st) = (imps, st1)"
    by (simp add: imps_def st1_def)
  from fold_score_candidate_state [of cfg "snd state" cs "([], st)"] obtain c n where
    st1: "st1 = st\<lparr>score_cache := c, simulations := n\<rparr>"
    unfolding st1_def by auto
  from fold_score_candidate_cache [of "([], st)" cfg "snd state" cs]
  have k: "\<forall>k v. score_cache st k = Some v \<longrightarrow> score_cache st1 k = Some v"
    and i: "\<forall>x\<in>set imps. score_cache st1 (to_string_representation cfg (fst x)) = Some (snd x)"
    unfolding st1_def imps_def by simp_all
  from k have "\<forall>k v. score_cache st k = Some v \<longrightarrow> c k = Some v" by (simp add: st1)
  from record_inv_cache [OF assms(2) this, of n] have r1: "record_inv cfg st1" by (simp add: st1)
  have rs: "records st1 = records st" by (simp add: st1)
  from assms(1) have "mset (srt imps) = mset imps" by (simp add: sort_spec_def)
  then have "set (srt imps) = set imps" by (rule mset_eq_setD)
  with i have "\<forall>x\<in>set (srt imps). score_cache st1 (to_string_representation cfg (fst x)) = Some (snd x)"
    by simp
  from fold_push_improvement_record_inv [OF r1 this] r1 rs show ?thesis
    by (simp add: evaluate_and_process_candidates_def f)
qed

lemma find_and_push_record_inv:
  assumes "sort_spec srt" and "record_inv cfg st"
  shows "record_inv cfg (snd (find_and_push_potential_next_states cfg srt state depth st))
     \<and> (\<exists>new. records (snd (find_and_push_potential_next_states cfg srt state depth st)) = records st @ new)"
  using evaluate_record_inv [OF assms] assms(2)
  by (simp add: find_and_push_potential_next_states_def Let_def)

lemma solve_iteration_record_inv:
  assumes "sort_spec srt" and "record_inv cfg st"
  shows "record_inv cfg (solve_iteration cfg srt st)
     \<and> (\<exists>new. records (solve_iteration cfg srt st) = records st @ new)"
proof (cases "states_to_explore_stack st")
  case Nil
  with assms(2) show ?thesis by (simp add: solve_iteration_def)
next
  case (Cons cur rest)
  define st0 where "st0 = st\<lparr>states_to_explore_stack := rest\<rparr>"
  define r where "r = find_and_push_potential_next_states cfg srt cur 1 st0"
  have r0: "record_inv cfg st0" "records st0 = records st"
    using assms(2) by (simp_all add: st0_def record_inv_def)
  from find_and_push_record_inv [OF assms(1) r0(1), of cur 1] obtain n1 where
    r1: "record_inv cfg (snd r)" "records (snd r) = records st @ n1"
    unfolding r_def r0(2) by blast
  define st2 where "st2 = (snd r)\<lparr>deep_jumps := deep_jumps (snd r) + 1\<rparr>"
  have r2: "record_inv cfg st2" "records st2 = records st @ n1"
    using r1 by (simp_all add: st2_def record_inv_def)
  from find_and_push_record_inv [OF assms(1) r2(1), of cur "DEEP_JUMP_DEPTH cfg"] obtain n2 where
    r3: "record_inv cfg (snd (find_and_push_potential_next_states cfg srt cur (DEEP_JUMP_DEPTH cfg) st2))"
    "records (snd (find_and_push_potential_next_states cfg srt cur (DEEP_JUMP_DEPTH cfg) st2))
       = records st @ (n1 @ n2)"
    unfolding r2(2) by auto
  have "solve_iteration cfg srt st
      = (if \<not> fst r \<and> DEEP_JUMP_DEPTH cfg > 1
         then snd (find_and_push_potential_next_states cfg srt cur (DEEP_JUMP_DEPTH cfg) st2)
         else snd r)"
    by (simp add: solve_iteration_def Cons st0_def [symmetric] r_def [symmetric] st2_def
        case_prod_beta)
  with r1 r3 show ?thesis by auto
qed

lemma SolverBase_init_fields:
  assumes "score_cache blank = Map.empty" and "records blank = []"
  shows "records (SolverBase_init cfg blank) = [(empty_maze cfg, calculate_score cfg (empty_maze cfg))]"
    "highest_known_score (SolverBase_init cfg blank) = calculate_score cfg (empty_maze cfg)"
    "score_cache (SolverBase_init cfg blank)
       = [to_string_representation cfg (empty_maze cfg) \<mapsto> calculate_score cfg (empty_maze cfg)]"
    "globally_visited_layouts (SolverBase_init cfg blank) = globally_visited_layouts blank"
  using assms by (simp_all add: SolverBase_init_def get_score_miss notify_new_record_def Let_def)

lemma solve_start_record_inv: "record_inv cfg (solve_start cfg)"
  by (simp add: solve_start_def Let_def record_inv_def SolverBase_init_fields blank_greedy_solver_def)

lemma solve_run_record_inv:
  "sort_spec srt \<Longrightarrow> record_inv cfg (solve_run cfg srt n)"
  unfolding solve_run_def
  by (induction n) (simp_all add: solve_start_record_inv solve_iteration_record_inv)

lemma best_first_visit_record_inv:
  assumes "record_inv cfg st"
  shows "record_inv cfg (best_first_visit cfg cur p st)
     \<and> (\<exists>new. records (best_first_visit cfg cur p st) = records st @ new)"
proof -
  define next_maze where "next_maze = set_wall_at (fst cur) p True"
  define repr where "repr = to_string_representation cfg next_maze"
  show ?thesis
  proof (cases "repr \<in> globally_visited_layouts st")
    case True
    then have "best_first_visit cfg cur p st = st"
      by (simp add: best_first_visit_def next_maze_def repr_def Let_def)
    with assms show ?thesis by simp
  next
    case False
    define score where "score = fst (get_score_for_maze cfg next_maze st)"
    define st1 where "st1 = snd (get_score_for_maze cfg next_maze st)"
    define st2 where "st2 = (if score > highest_known_score st1
                      then notify_new_record next_maze score (st1\<lparr>highest_known_score := score\<rparr>)
                      else st1)"
    have g: "get_score_for_maze cfg next_maze st = (score, st1)"
      by (simp add: score_def st1_def)
    have v: "best_first_visit cfg cur p st
        = st2\<lparr>pq := add_mset (next_maze, score) (pq st2),
              globally_visited_layouts := insert repr (globally_visited_layouts st2)\<rparr>"
      using False
      by (simp add: best_first_visit_def next_maze_def [symmetric] repr_def [symmetric] Let_def g st2_def)
    from get_score_state [of cfg next_maze st] obtain c n where
      s1: "st1 = st\<lparr>score_cache := c, simulations := n\<rparr>" unfolding st1_def by blast
    from get_score_keeps [of st _ _ cfg next_maze]
    have "\<forall>k v. score_cache st k = Some v \<longrightarrow> c k = Some v"
      unfolding st1_def [symmetric] s1 by simp
    from record_inv_cache [OF assms this, of n] have r1: "record_inv cfg st1" by (simp add: s1)
    have rs: "records st1 = records st" by (simp add: s1)
    have cs: "score_cache st1 repr = Some score"
      unfolding st1_def score_def repr_def by (rule get_score_stores)
    from r1 have a: "records st1 \<noteq> []" "sorted_wrt (<) (map snd (records st1))"
      "highest_known_score st1 = snd (last (records st1))"
      and adm: "\<forall>r\<in>set (records st1).
            to_string_representation cfg (fst r) \<in> globally_visited_layouts st1
            \<and> score_cache st1 (to_string_representation cfg (fst r)) = Some (snd r)"
      by (simp_all add: record_inv_def)
    from update_rule_records [OF a, of score next_maze] obtain new where
      u: "records st2 \<noteq> []" "sorted_wrt (<) (map snd (records st2))"
      "highest_known_score st2 = snd (last (records st2))"
      "records st2 = records st1 @ new" "set new \<subseteq> {(next_maze, score)}"
      unfolding st2_def by blast
    have f: "score_cache st2 = score_cache st1" "globally_visited_layouts st2 = globally_visited_layouts st1"
      by (simp_all add: st2_def notify_new_record_def)
    have "\<forall>r\<in>set (records st2).
            to_string_representation cfg (fst r) \<in> insert repr (globally_visited_layouts st2)
            \<and> score_cache st2 (to_string_representation cfg (fst r)) = Some (snd r)"
      using adm u(4,5) cs unfolding f repr_def by auto
    with u rs show ?thesis
      unfolding v record_inv_def by simp
  qed
qed

lemma best_first_iteration_record_inv:
  "record_inv cfg st \<Longrightarrow>
   record_inv cfg (best_first_iteration cfg cur cell_order st)
     \<and> (\<exists>new. records (best_first_iteration cfg cur cell_order st) = records st @ new)"
  unfolding best_first_iteration_def
proof (induction cell_order arbitrary: st)
  case Nil
  then show ?case by simp
next
  case (Cons p ps)
  from best_first_visit_record_inv [OF Cons.prems, of cur p] obtain n1 where
    a: "record_inv cfg (best_first_visit cfg cur p st)"
    "records (best_first_visit cfg cur p st) = records st @ n1" by blast
  from Cons.IH [OF a(1)] obtain n2 where
    "record_inv cfg (fold (best_first_visit cfg cur) ps (best_first_visit cfg cur p st))"
    "records (fold (best_first_visit cfg cur) ps (best_first_visit cfg cur p st))
      = records (best_first_visit cfg cur p st) @ n2" by blast
  with a(2) show ?case by simp
qed

lemma best_first_start_record_inv: "record_inv cfg (best_first_start cfg)"
  by (simp add: best_first_start_def Let_def record_inv_def SolverBase_init_fields
      blank_best_first_solver_def)

lemma best_first_reachable_record_inv:
  "best_first_reachable cfg st \<Longrightarrow> record_inv cfg st"
proof (induction rule: best_first_reachable.induct)
  case start
  show ?case by (rule best_first_start_record_inv)
next
  case (step st current_state cell_order)
  from step.IH have "record_inv cfg (st\<lparr>pq := pq st - {#current_state#}\<rparr>)"
    by (simp add: record_inv_def)
  from best_first_iteration_record_inv [OF this] show ?case by blast
qed

text \<open>
  C5: across a run of Greedy-Backtrack (after any number of iterations, for any sort that
  meets its contract) and of Best-First (at every reachable state, whatever entry of
  maximal score is popped and however the cells are shuffled), the scores sent to the
  record sink increase strictly; the list of notifications only grows at its end; the last
  notification carries the best known score; and every notified layout is an admitted one
  (its canonical key is in the global visited set) with the score the cache holds for it.
  The first notification is the one the constructor sends for the empty layout before
  the run starts; in the run itself a notification is appended only by the update rule:
  each step that handles a layout appends at most records whose score exceeds the best
  known score at that moment.
\<close>

theorem record_monotonicity:
  "(sort_spec srt \<longrightarrow>
       sorted_wrt (<) (map snd (records (solve_run cfg srt n)))
     \<and> record_inv cfg (solve_run cfg srt n)
     \<and> (\<exists>new. records (solve_run cfg srt (Suc n)) = records (solve_run cfg srt n) @ new))
   \<and> (best_first_reachable cfg st \<longrightarrow>
       sorted_wrt (<) (map snd (records st))
     \<and> record_inv cfg st
     \<and> (\<forall>cur cell_order. \<exists>new.
           records (best_first_iteration cfg cur cell_order (st\<lparr>pq := pq st - {#cur#}\<rparr>))
             = records st @ new))
   \<and> (\<forall>s g. \<exists>new. records (push_improvement cfg s g) = records g @ new
          \<and> (\<forall>r\<in>set new. snd r > highest_known_score g))
   \<and> (\<forall>cur p b. \<exists>new. records (best_first_visit cfg cur p b) = records b @ new
          \<and> (\<forall>r\<in>set new. snd r > highest_known_score b))"
proof -
  have g: "sort_spec srt \<longrightarrow>
       sorted_wrt (<) (map snd (records (solve_run cfg srt n)))
     \<and> record_inv cfg (solve_run cfg srt n)
     \<and> (\<exists>new. records (solve_run cfg srt (Suc n)) = records (solve_run cfg srt n) @ new)"
  proof
    assume s: "sort_spec srt"
    from solve_run_record_inv [OF s] have r: "record_inv cfg (solve_run cfg srt n)" .
    have "solve_run cfg srt (Suc n) = solve_iteration cfg srt (solve_run cfg srt n)"
      by (simp add: solve_run_def)
    with solve_iteration_record_inv [OF s r] r
    show "sorted_wrt (<) (map snd (records (solve_run cfg srt n)))
     \<and> record_inv cfg (solve_run cfg srt n)
     \<and> (\<exists>new. records (solve_run cfg srt (Suc n)) = records (solve_run cfg srt n) @ new)"
      by (simp add: record_inv_def)
  qed
  have b: "best_first_reachable cfg st \<longrightarrow>
       sorted_wrt (<) (map snd (records st))
     \<and> record_inv cfg st
     \<and> (\<forall>cur cell_order. \<exists>new.
           records (best_first_iteration cfg cur cell_order (st\<lparr>pq := pq st - {#cur#}\<rparr>))
             = records st @ new)"
  proof
    assume "best_first_reachable cfg st"
    then have r: "record_inv cfg st" by (rule best_first_reachable_record_inv)
    have "\<forall>cur cell_order. \<exists>new.
           records (best_first_iteration cfg cur cell_order (st\<lparr>pq := pq st - {#cur#}\<rparr>))
             = records st @ new"
    proof (intro allI)
      fix cur cell_order
      from r have "record_inv cfg (st\<lparr>pq := pq st - {#cur#}\<rparr>)" by (simp add: record_inv_def)
      from best_first_iteration_record_inv [OF this, of cur cell_order]
      show "\<exists>new. records (best_first_iteration cfg cur cell_order (st\<lparr>pq := pq st - {#cur#}\<rparr>))
             = records st @ new" by simp
    qed
    with r show "sorted_wrt (<) (map snd (records st))
     \<and> record_inv cfg st
     \<and> (\<forall>cur cell_order. \<exists>new.
           records (best_first_iteration cfg cur cell_order (st\<lparr>pq := pq st - {#cur#}\<rparr>))
             = records st @ new)"
      by (simp add: record_inv_def)
  qed
  have p: "\<forall>s g. \<exists>new. records (push_improvement cfg s g) = records g @ new
          \<and> (\<forall>r\<in>set new. snd r > highest_known_score g)"
    by (simp add: push_improvement_def Let_def notify_new_record_def)
  have v: "\<forall>cur p b. \<exists>new. records (best_first_visit cfg cur p b) = records b @ new
          \<and> (\<forall>r\<in>set new. snd r > highest_known_score b)"
  proof (intro allI)
    fix cur :: "Maze \<times> int" and p and b :: best_first_solver
    define next_maze where "next_maze = set_wall_at (fst cur) p True"
    obtain score st1 where gs: "get_score_for_maze cfg next_maze b = (score, st1)" by fastforce
    from get_score_state [of cfg next_maze b] gs obtain c n where
      "st1 = b\<lparr>score_cache := c, simulations := n\<rparr>" by auto
    then have "records st1 = records b" "highest_known_score st1 = highest_known_score b"
      by simp_all
    then show "\<exists>new. records (best_first_visit cfg cur p b) = records b @ new
          \<and> (\<forall>r\<in>set new. snd r > highest_known_score b)"
      by (simp add: best_first_visit_def next_maze_def [symmetric] Let_def gs notify_new_record_def)
  qed
  from g b p v show ?thesis by blast
qed

theorem record_monotonicity_witness:
  "sort_spec (sort_key snd)
   \<and> map snd (records (solve_run grid_3x3 (sort_key snd) 1)) = [4, 6]
   \<and> sorted_wrt (<) (map snd (records (solve_run grid_3x3 (sort_key snd) 1)))
   \<and> best_first_reachable grid_3x3 (best_first_start grid_3x3)
   \<and> sorted_wrt (<) (map snd (records (best_first_start grid_3x3)))"
proof -
  have r: "map snd (records (solve_run grid_3x3 (sort_key snd) 1)) = [4, 6]"
    by code_simp
  have b: "best_first_reachable grid_3x3 (best_first_start grid_3x3)"
    by (rule best_first_reachable.start)
  from record_monotonicity [of "sort_key snd" grid_3x3 1 "best_first_start grid_3x3"]
    sort_spec_sort_key b r
  show ?thesis by simp
qed

subsection \<open>Best-First: one iteration\<close>

lemma distinct_cells_aux:
  "distinct rs \<Longrightarrow> distinct cs \<Longrightarrow>
   distinct (concat (map (\<lambda>r. map (\<lambda>c. \<lparr>coordinate_x = int c, coordinate_y = int r\<rparr>) cs) rs))"
proof (induction rs)
  case Nil
  then show ?case by simp
next
  case (Cons r rs)
  have "distinct (map (\<lambda>c. \<lparr>coordinate_x = int c, coordinate_y = int r\<rparr>) cs)"
    using Cons.prems(2) by (simp add: distinct_map inj_on_def)
  moreover have "set (map (\<lambda>c. \<lparr>coordinate_x = int c, coordinate_y = int r\<rparr>) cs)
      \<inter> set (concat (map (\<lambda>r. map (\<lambda>c. \<lparr>coordinate_x = int c, coordinate_y = int r\<rparr>) cs) rs)) = {}"
    using Cons.prems(1) by auto
  ultimately show ?case using Cons by simp
qed

lemma distinct_cells: "distinct (cells cfg)"
  unfolding cells_def by (rule distinct_cells_aux) simp_all

lemma distinct_placeable_cells: "distinct (placeable_cells cfg m)"
  unfolding placeable_cells_def using distinct_cells by (rule distinct_filter)

lemma placeable_cells_props:
  "p \<in> set (placeable_cells cfg m) \<Longrightarrow> is_within_bounds cfg p \<and> \<not> is_wall_at m p"
  by (simp add: placeable_cells_def set_cells)

lemma key_set_wall_inj:
  assumes "grid_wf cfg (wall_grid m)"
    and "p \<in> set (placeable_cells cfg m)" and "q \<in> set (placeable_cells cfg m)"
    and "to_string_representation cfg (set_wall_at m p True)
          = to_string_representation cfg (set_wall_at m q True)"
  shows "p = q"
proof (rule ccontr)
  assume ne: "p \<noteq> q"
  from placeable_cells_props [OF assms(2)] have p: "is_within_bounds cfg p" "\<not> is_wall_at m p"
    by simp_all
  from placeable_cells_props [OF assms(3)] have q: "is_within_bounds cfg q" by simp
  from assms(4) p(1) have "is_wall_at (set_wall_at m p True) p = is_wall_at (set_wall_at m q True) p"
    unfolding key_eq_iff by blast
  with ne p show False
    by (simp add: is_wall_at_set_wall_at [OF assms(1) p(1) p(1)]
        is_wall_at_set_wall_at [OF assms(1) q p(1)])
qed

lemma get_score_fst_cong:
  "score_cache a (to_string_representation cfg m) = score_cache b (to_string_representation cfg m)
   \<Longrightarrow> fst (get_score_for_maze cfg m a) = fst (get_score_for_maze cfg m b)"
  by (simp add: get_score_for_maze_def Let_def split: option.splits)

lemma get_score_cache_other:
  "k \<noteq> to_string_representation cfg m \<Longrightarrow>
   score_cache (snd (get_score_for_maze cfg m st)) k = score_cache st k"
  by (simp add: get_score_for_maze_def Let_def split: option.splits)

lemma best_first_visit_fields:
  "globally_visited_layouts (best_first_visit cfg cur p st)
     = insert (candidate_key cfg cur p) (globally_visited_layouts st)"
  "pq (best_first_visit cfg cur p st)
     = (if candidate_key cfg cur p \<in> globally_visited_layouts st then pq st
        else add_mset (candidate_at cur p, candidate_score cfg st cur p) (pq st))"
  "highest_known_score (best_first_visit cfg cur p st)
     = (if candidate_key cfg cur p \<in> globally_visited_layouts st then highest_known_score st
        else max (highest_known_score st) (candidate_score cfg st cur p))"
  "k \<noteq> candidate_key cfg cur p \<Longrightarrow> score_cache (best_first_visit cfg cur p st) k = score_cache st k"
  "candidate_key cfg cur p \<notin> globally_visited_layouts st \<Longrightarrow>
     score_cache (best_first_visit cfg cur p st) (candidate_key cfg cur p)
       = Some (candidate_score cfg st cur p)"
proof -
  define nm where "nm = set_wall_at (fst cur) p True"
  define repr where "repr = to_string_representation cfg nm"
  obtain score st1 where g: "get_score_for_maze cfg nm st = (score, st1)" by fastforce
  from get_score_state [of cfg nm st] g obtain c n where
    s1: "st1 = st\<lparr>score_cache := c, simulations := n\<rparr>" by auto
  have ck: "candidate_key cfg cur p = repr" "candidate_at cur p = nm"
    "candidate_score cfg st cur p = score"
    by (simp_all add: candidate_key_def candidate_at_def candidate_score_def nm_def [symmetric] repr_def [symmetric] g)
  have v: "best_first_visit cfg cur p st
      = (if repr \<in> globally_visited_layouts st then st
         else let st2 = (if score > highest_known_score st1
                      then notify_new_record nm score (st1\<lparr>highest_known_score := score\<rparr>)
                      else st1)
           in st2\<lparr>pq := add_mset (nm, score) (pq st2),
                  globally_visited_layouts := insert repr (globally_visited_layouts st2)\<rparr>)"
    by (simp add: best_first_visit_def nm_def [symmetric] repr_def [symmetric] g Let_def)
  show "globally_visited_layouts (best_first_visit cfg cur p st)
     = insert (candidate_key cfg cur p) (globally_visited_layouts st)"
    unfolding ck v by (auto simp: s1 notify_new_record_def Let_def)
  show "pq (best_first_visit cfg cur p st)
     = (if candidate_key cfg cur p \<in> globally_visited_layouts st then pq st
        else add_mset (candidate_at cur p, candidate_score cfg st cur p) (pq st))"
    unfolding ck v by (simp add: s1 notify_new_record_def Let_def)
  show "highest_known_score (best_first_visit cfg cur p st)
     = (if candidate_key cfg cur p \<in> globally_visited_layouts st then highest_known_score st
        else max (highest_known_score st) (candidate_score cfg st cur p))"
    unfolding ck v by (simp add: s1 notify_new_record_def Let_def max_def)
  have c1: "\<And>k. k \<noteq> repr \<Longrightarrow> c k = score_cache st k"
    using get_score_cache_other [of _ cfg nm st] g s1 by (simp add: repr_def)
  show "k \<noteq> candidate_key cfg cur p \<Longrightarrow> score_cache (best_first_visit cfg cur p st) k = score_cache st k"
    unfolding ck v using c1 by (simp add: s1 notify_new_record_def Let_def)
  have c2: "c repr = Some score"
    using get_score_stores [of cfg nm st] g s1 by (simp add: repr_def)
  show "candidate_key cfg cur p \<notin> globally_visited_layouts st \<Longrightarrow>
     score_cache (best_first_visit cfg cur p st) (candidate_key cfg cur p)
       = Some (candidate_score cfg st cur p)"
    unfolding ck v using c2 by (simp add: s1 notify_new_record_def Let_def)
qed

lemma candidate_score_visit:
  assumes "candidate_key cfg cur q \<noteq> candidate_key cfg cur p"
  shows "candidate_score cfg (best_first_visit cfg cur p st) cur q = candidate_score cfg st cur q"
  unfolding candidate_score_def
  by (rule get_score_fst_cong)
     (use assms in \<open>simp add: best_first_visit_fields(4) candidate_key_def\<close>)

lemma fold_visit_visited:
  "globally_visited_layouts (fold (best_first_visit cfg cur) ps st)
     = globally_visited_layouts st \<union> candidate_key cfg cur ` set ps"
  by (induction ps arbitrary: st) (simp_all add: best_first_visit_fields(1))

lemma fold_visit_cache_other:
  "k \<notin> candidate_key cfg cur ` set ps \<Longrightarrow>
   score_cache (fold (best_first_visit cfg cur) ps st) k = score_cache st k"
  by (induction ps arbitrary: st) (simp_all add: best_first_visit_fields(4))

lemma Max_insert_max:
  fixes h s :: int
  assumes "finite B"
  shows "Max (insert (max h s) B) = Max (insert h (insert s B))"
proof (cases "B = {}")
  case True
  then show ?thesis by (simp add: max.commute)
next
  case False
  with assms show ?thesis by (simp add: max.assoc)
qed

lemma fold_visit_char:
  "distinct ps \<Longrightarrow> inj_on (candidate_key cfg cur) (set ps) \<Longrightarrow>
   pq (fold (best_first_visit cfg cur) ps st)
       = pq st + image_mset (\<lambda>p. (candidate_at cur p, candidate_score cfg st cur p))
                   (filter_mset (\<lambda>p. candidate_key cfg cur p \<notin> globally_visited_layouts st) (mset ps))
   \<and> highest_known_score (fold (best_first_visit cfg cur) ps st)
       = Max (insert (highest_known_score st)
                (candidate_score cfg st cur
                   ` {p \<in> set ps. candidate_key cfg cur p \<notin> globally_visited_layouts st}))
   \<and> (\<forall>p\<in>set ps. candidate_key cfg cur p \<notin> globally_visited_layouts st \<longrightarrow>
           score_cache (fold (best_first_visit cfg cur) ps st) (candidate_key cfg cur p)
             = Some (candidate_score cfg st cur p))"
proof (induction ps arbitrary: st)
  case Nil
  show ?case by simp
next
  case (Cons p ps)
  define st1 where "st1 = best_first_visit cfg cur p st"
  define V where "V = globally_visited_layouts st"
  have f: "fold (best_first_visit cfg cur) (p # ps) st = fold (best_first_visit cfg cur) ps st1"
    by (simp add: st1_def)
  from Cons.prems have dps: "distinct ps" and pn: "p \<notin> set ps" by simp_all
  from Cons.prems have i: "inj_on (candidate_key cfg cur) (set (p # ps))" by simp
  then have ips: "inj_on (candidate_key cfg cur) (set ps)" by (simp add: inj_on_def)
  have ne: "\<And>q. q \<in> set ps \<Longrightarrow> candidate_key cfg cur q \<noteq> candidate_key cfg cur p"
  proof
    fix q assume q: "q \<in> set ps" and e: "candidate_key cfg cur q = candidate_key cfg cur p"
    from i q e have "q = p" by (simp add: inj_on_def)
    with q pn show False by simp
  qed
  have V1: "globally_visited_layouts st1 = insert (candidate_key cfg cur p) V"
    by (simp add: st1_def V_def best_first_visit_fields(1))
  have mem: "\<And>q. q \<in> set ps \<Longrightarrow>
      (candidate_key cfg cur q \<notin> globally_visited_layouts st1) = (candidate_key cfg cur q \<notin> V)"
    using ne by (simp add: V1)
  have sc: "\<And>q. q \<in> set ps \<Longrightarrow> candidate_score cfg st1 cur q = candidate_score cfg st cur q"
    unfolding st1_def using ne by (simp add: candidate_score_visit)
  have fm: "filter_mset (\<lambda>q. candidate_key cfg cur q \<notin> globally_visited_layouts st1) (mset ps)
      = filter_mset (\<lambda>q. candidate_key cfg cur q \<notin> V) (mset ps)"
    by (rule filter_mset_cong) (simp_all add: mem)
  have im: "image_mset (\<lambda>q. (candidate_at cur q, candidate_score cfg st1 cur q))
        (filter_mset (\<lambda>q. candidate_key cfg cur q \<notin> V) (mset ps))
      = image_mset (\<lambda>q. (candidate_at cur q, candidate_score cfg st cur q))
        (filter_mset (\<lambda>q. candidate_key cfg cur q \<notin> V) (mset ps))"
    by (rule image_mset_cong) (simp add: sc)
  have sts: "{q \<in> set ps. candidate_key cfg cur q \<notin> globally_visited_layouts st1}
      = {q \<in> set ps. candidate_key cfg cur q \<notin> V}"
    using mem by blast
  have ims: "candidate_score cfg st1 cur ` {q \<in> set ps. candidate_key cfg cur q \<notin> V}
      = candidate_score cfg st cur ` {q \<in> set ps. candidate_key cfg cur q \<notin> V}"
    by (rule image_cong) (simp_all add: sc)
  note IH = Cons.IH [OF dps ips, of st1]
  have g1: "pq (fold (best_first_visit cfg cur) ps st1)
       = pq st + image_mset (\<lambda>p. (candidate_at cur p, candidate_score cfg st cur p))
                   (filter_mset (\<lambda>p. candidate_key cfg cur p \<notin> V) (mset (p # ps)))"
  proof -
    have "pq st1 = (if candidate_key cfg cur p \<in> V then pq st
        else add_mset (candidate_at cur p, candidate_score cfg st cur p) (pq st))"
      by (simp add: st1_def V_def best_first_visit_fields(2))
    with IH show ?thesis unfolding fm im by simp
  qed
  have g2: "highest_known_score (fold (best_first_visit cfg cur) ps st1)
       = Max (insert (highest_known_score st)
                (candidate_score cfg st cur ` {q \<in> set (p # ps). candidate_key cfg cur q \<notin> V}))"
  proof -
    have h1: "highest_known_score st1
        = (if candidate_key cfg cur p \<in> V then highest_known_score st
           else max (highest_known_score st) (candidate_score cfg st cur p))"
      by (simp add: st1_def V_def best_first_visit_fields(3))
    define B where "B = candidate_score cfg st cur ` {q \<in> set ps. candidate_key cfg cur q \<notin> V}"
    have fin: "finite B" by (simp add: B_def)
    have s: "candidate_score cfg st cur ` {q \<in> set (p # ps). candidate_key cfg cur q \<notin> V}
        = (if candidate_key cfg cur p \<in> V then B else insert (candidate_score cfg st cur p) B)"
      unfolding B_def by auto
    from IH have "highest_known_score (fold (best_first_visit cfg cur) ps st1)
        = Max (insert (highest_known_score st1) B)"
      unfolding sts ims B_def by simp
    then show ?thesis
      unfolding s h1 using Max_insert_max [OF fin] by simp
  qed
  have g3: "\<forall>q\<in>set (p # ps). candidate_key cfg cur q \<notin> V \<longrightarrow>
           score_cache (fold (best_first_visit cfg cur) ps st1) (candidate_key cfg cur q)
             = Some (candidate_score cfg st cur q)"
  proof (intro ballI impI)
    fix q assume q: "q \<in> set (p # ps)" and nv: "candidate_key cfg cur q \<notin> V"
    show "score_cache (fold (best_first_visit cfg cur) ps st1) (candidate_key cfg cur q)
           = Some (candidate_score cfg st cur q)"
    proof (cases "q = p")
      case True
      have "candidate_key cfg cur p \<notin> candidate_key cfg cur ` set ps"
        using ne by force
      from fold_visit_cache_other [OF this, of st1]
      show ?thesis
        unfolding True st1_def using nv True
        by (simp add: best_first_visit_fields(5) V_def)
    next
      case False
      with q have qs: "q \<in> set ps" by simp
      with IH mem [OF qs] sc [OF qs] nv show ?thesis by simp
    qed
  qed
  from g1 g2 g3 show ?case unfolding f V_def by simp
qed

lemma grid_wf_empty_maze: "grid_wf cfg (wall_grid (empty_maze cfg))"
  by (simp add: empty_maze_def grid_wf_replicate)

text \<open>
  C9, as the specification states it, fails in its last part: the order in which the
  candidates are visited also decides which of them are notified to the record sink. On
  the empty 4 by 3 grid the candidates with a wall at (1,2) and at (2,2) score 7 and 9;
  visited in row-major order both are records, visited in the reverse order only the
  second is.
\<close>

theorem best_first_shuffle_counterexample:
  "\<not> (\<forall>cell_order. mset cell_order = mset (placeable_cells grid_4x3 (empty_maze grid_4x3)) \<longrightarrow>
         map snd (records (best_first_iteration grid_4x3 (empty_maze grid_4x3, 5) cell_order
                             popped_start_4x3))
         = map snd (records (best_first_iteration grid_4x3 (empty_maze grid_4x3, 5)
                             (placeable_cells grid_4x3 (empty_maze grid_4x3)) popped_start_4x3)))"
proof
  assume a: "\<forall>cell_order. mset cell_order = mset (placeable_cells grid_4x3 (empty_maze grid_4x3)) \<longrightarrow>
         map snd (records (best_first_iteration grid_4x3 (empty_maze grid_4x3, 5) cell_order
                             popped_start_4x3))
         = map snd (records (best_first_iteration grid_4x3 (empty_maze grid_4x3, 5)
                             (placeable_cells grid_4x3 (empty_maze grid_4x3)) popped_start_4x3))"
  have r: "map snd (records (best_first_iteration grid_4x3 (empty_maze grid_4x3, 5)
         (rev (placeable_cells grid_4x3 (empty_maze grid_4x3))) popped_start_4x3)) = [5, 9]"
    by code_simp
  have s: "map snd (records (best_first_iteration grid_4x3 (empty_maze grid_4x3, 5)
         (placeable_cells grid_4x3 (empty_maze grid_4x3)) popped_start_4x3)) = [5, 7, 9]"
    by code_simp
  have "mset (rev (placeable_cells grid_4x3 (empty_maze grid_4x3)))
      = mset (placeable_cells grid_4x3 (empty_maze grid_4x3))" by simp
  with a have "map snd (records (best_first_iteration grid_4x3 (empty_maze grid_4x3, 5)
         (rev (placeable_cells grid_4x3 (empty_maze grid_4x3))) popped_start_4x3))
     = map snd (records (best_first_iteration grid_4x3 (empty_maze grid_4x3, 5)
         (placeable_cells grid_4x3 (empty_maze grid_4x3)) popped_start_4x3))"
    by blast
  then show False unfolding r s by simp
qed

text \<open>
  C9 (amended): in an iteration of Best-First on a popped layout of the grid's dimensions,
  whatever permutation of the placeable cells the shuffle produces, every depth-1
  candidate whose canonical key is not in the global visited set is scored (the cache
  holds its score), marked visited, and pushed into the frontier with that score, whether
  or not the score improves on the popped entry's; no other entry is pushed. The visited
  set, the frontier (as a multiset) and the best known score after the iteration do not
  depend on the permutation: the shuffle changes the order of admission, and with it
  which intermediate records are notified, not which layouts are admitted.
\<close>

theorem best_first_admission:
  assumes "grid_wf cfg (wall_grid (fst cur))"
    and "mset cell_order = mset (placeable_cells cfg (fst cur))"
  shows
    "globally_visited_layouts (best_first_iteration cfg cur cell_order st)
       = globally_visited_layouts st \<union> candidate_key cfg cur ` set (placeable_cells cfg (fst cur))
     \<and> pq (best_first_iteration cfg cur cell_order st)
       = pq st + image_mset (\<lambda>p. (candidate_at cur p, candidate_score cfg st cur p))
                   (filter_mset (\<lambda>p. candidate_key cfg cur p \<notin> globally_visited_layouts st)
                      (mset (placeable_cells cfg (fst cur))))
     \<and> (\<forall>p\<in>set (placeable_cells cfg (fst cur)).
           candidate_key cfg cur p \<notin> globally_visited_layouts st \<longrightarrow>
             score_cache (best_first_iteration cfg cur cell_order st) (candidate_key cfg cur p)
               = Some (candidate_score cfg st cur p)
             \<and> (candidate_at cur p, candidate_score cfg st cur p)
                 \<in># pq (best_first_iteration cfg cur cell_order st))
     \<and> highest_known_score (best_first_iteration cfg cur cell_order st)
       = Max (insert (highest_known_score st)
                (candidate_score cfg st cur
                   ` {p \<in> set (placeable_cells cfg (fst cur)).
                        candidate_key cfg cur p \<notin> globally_visited_layouts st}))
     \<and> (\<forall>other_order. mset other_order = mset (placeable_cells cfg (fst cur)) \<longrightarrow>
           globally_visited_layouts (best_first_iteration cfg cur other_order st)
             = globally_visited_layouts (best_first_iteration cfg cur cell_order st)
           \<and> pq (best_first_iteration cfg cur other_order st)
             = pq (best_first_iteration cfg cur cell_order st)
           \<and> highest_known_score (best_first_iteration cfg cur other_order st)
             = highest_known_score (best_first_iteration cfg cur cell_order st))"
proof -
  define pl where "pl = placeable_cells cfg (fst cur)"
  have inj: "inj_on (candidate_key cfg cur) (set pl)"
    unfolding inj_on_def candidate_key_def candidate_at_def pl_def
    using key_set_wall_inj [OF assms(1)] by blast
  have core: "\<And>ord. mset ord = mset pl \<Longrightarrow>
      globally_visited_layouts (best_first_iteration cfg cur ord st)
        = globally_visited_layouts st \<union> candidate_key cfg cur ` set pl
      \<and> pq (best_first_iteration cfg cur ord st)
        = pq st + image_mset (\<lambda>p. (candidate_at cur p, candidate_score cfg st cur p))
                   (filter_mset (\<lambda>p. candidate_key cfg cur p \<notin> globally_visited_layouts st) (mset pl))
      \<and> (\<forall>p\<in>set pl. candidate_key cfg cur p \<notin> globally_visited_layouts st \<longrightarrow>
             score_cache (best_first_iteration cfg cur ord st) (candidate_key cfg cur p)
               = Some (candidate_score cfg st cur p))
      \<and> highest_known_score (best_first_iteration cfg cur ord st)
        = Max (insert (highest_known_score st)
                (candidate_score cfg st cur
                   ` {p \<in> set pl. candidate_key cfg cur p \<notin> globally_visited_layouts st}))"
  proof -
    fix ord assume m: "mset ord = mset pl"
    then have se: "set ord = set pl" by (rule mset_eq_setD)
    from m distinct_placeable_cells [of cfg "fst cur"] have d: "distinct ord"
      unfolding pl_def by (metis mset_eq_imp_distinct_iff)
    from inj se have i: "inj_on (candidate_key cfg cur) (set ord)" by simp
    from fold_visit_char [OF d i, of st] fold_visit_visited [of cfg cur ord st]
    show "globally_visited_layouts (best_first_iteration cfg cur ord st)
        = globally_visited_layouts st \<union> candidate_key cfg cur ` set pl
      \<and> pq (best_first_iteration cfg cur ord st)
        = pq st + image_mset (\<lambda>p. (candidate_at cur p, candidate_score cfg st cur p))
                   (filter_mset (\<lambda>p. candidate_key cfg cur p \<notin> globally_visited_layouts st) (mset pl))
      \<and> (\<forall>p\<in>set pl. candidate_key cfg cur p \<notin> globally_visited_layouts st \<longrightarrow>
             score_cache (best_first_iteration cfg cur ord st) (candidate_key cfg cur p)
               = Some (candidate_score cfg st cur p))
      \<and> highest_known_score (best_first_iteration cfg cur ord st)
        = Max (insert (highest_known_score st)
                (candidate_score cfg st cur
                   ` {p \<in> set pl. candidate_key cfg cur p \<notin> globally_visited_layouts st}))"
      unfolding best_first_iteration_def m se by simp
  qed
  note c1 = core [OF assms(2) [folded pl_def]]
  have mem: "\<forall>p\<in>set pl. candidate_key cfg cur p \<notin> globally_visited_layouts st \<longrightarrow>
      (candidate_at cur p, candidate_score cfg st cur p) \<in># pq (best_first_iteration cfg cur cell_order st)"
  proof (intro ballI impI)
    fix p assume "p \<in> set pl" "candidate_key cfg cur p \<notin> globally_visited_layouts st"
    then have "p \<in># filter_mset (\<lambda>p. candidate_key cfg cur p \<notin> globally_visited_layouts st) (mset pl)"
      by simp
    then have "(candidate_at cur p, candidate_score cfg st cur p)
        \<in># image_mset (\<lambda>p. (candidate_at cur p, candidate_score cfg st cur p))
                   (filter_mset (\<lambda>p. candidate_key cfg cur p \<notin> globally_visited_layouts st) (mset pl))"
      by auto
    with c1 show "(candidate_at cur p, candidate_score cfg st cur p)
        \<in># pq (best_first_iteration cfg cur cell_order st)" by simp
  qed
  have ind: "\<forall>other_order. mset other_order = mset pl \<longrightarrow>
           globally_visited_layouts (best_first_iteration cfg cur other_order st)
             = globally_visited_layouts (best_first_iteration cfg cur cell_order st)
           \<and> pq (best_first_iteration cfg cur other_order st)
             = pq (best_first_iteration cfg cur cell_order st)
           \<and> highest_known_score (best_first_iteration cfg cur other_order st)
             = highest_known_score (best_first_iteration cfg cur cell_order st)"
  proof (intro allI impI)
    fix other_order assume "mset other_order = mset pl"
    from core [OF this] c1
    show "globally_visited_layouts (best_first_iteration cfg cur other_order st)
             = globally_visited_layouts (best_first_iteration cfg cur cell_order st)
           \<and> pq (best_first_iteration cfg cur other_order st)
             = pq (best_first_iteration cfg cur cell_order st)
           \<and> highest_known_score (best_first_iteration cfg cur other_order st)
             = highest_known_score (best_first_iteration cfg cur cell_order st)"
      by simp
  qed
  from c1 mem ind show ?thesis
    unfolding pl_def by blast
qed

theorem best_first_admission_witness:
  "grid_wf grid_4x3 (wall_grid (fst (empty_maze grid_4x3, 5 :: int)))
   \<and> mset (rev (placeable_cells grid_4x3 (empty_maze grid_4x3)))
       = mset (placeable_cells grid_4x3 (fst (empty_maze grid_4x3, 5 :: int)))
   \<and> pq (best_first_iteration grid_4x3 (empty_maze grid_4x3, 5)
            (placeable_cells grid_4x3 (empty_maze grid_4x3)) popped_start_4x3)
       = pq (best_first_iteration grid_4x3 (empty_maze grid_4x3, 5)
            (rev (placeable_cells grid_4x3 (empty_maze grid_4x3))) popped_start_4x3)
   \<and> highest_known_score (best_first_iteration grid_4x3 (empty_maze grid_4x3, 5)
            (placeable_cells grid_4x3 (empty_maze grid_4x3)) popped_start_4x3)
       = highest_known_score (best_first_iteration grid_4x3 (empty_maze grid_4x3, 5)
            (rev (placeable_cells grid_4x3 (empty_maze grid_4x3))) popped_start_4x3)"
proof -
  have w: "grid_wf grid_4x3 (wall_grid (fst (empty_maze grid_4x3, 5 :: int)))"
    by (simp add: grid_wf_empty_maze)
  have m: "mset (rev (placeable_cells grid_4x3 (empty_maze grid_4x3)))
       = mset (placeable_cells grid_4x3 (fst (empty_maze grid_4x3, 5 :: int)))"
    by simp
  from best_first_admission [OF w m, of popped_start_4x3] w m show ?thesis
    by simp
qed

end
